theory Spec2Isabelle
  imports Main "HOL-Library.Log_Nat" "HOL-Library.AList"
begin

section \<open>Python floats\<close>

text \<open>
  A Python float is an IEEE 754 binary64 number.  Every finite one is a rational, so a
  float is modelled by the rational it denotes, and each arithmetic operation is the exact
  operation followed by \<open>rnd\<close>, rounding to the nearest number with a 53-bit significand,
  ties to the even significand.  The exponent is left unbounded: the magnitudes that occur in
  \<open>calculate_colors.py\<close> are far from the overflow and underflow ranges.
\<close>

type_synonym pyfloat = rat

definition round_half_even :: "rat \<Rightarrow> int" where
  "round_half_even x =
     (let f = \<lfloor>x\<rfloor>; d = x - of_int f
      in if d < 1 / 2 then f else if 1 / 2 < d then f + 1 else if even f then f else f + 1)"

definition ilog2 :: "rat \<Rightarrow> int" where
  \<comment> \<open>for \<open>0 < x\<close>: the \<open>e\<close> with \<open>2 powi e \<le> x < 2 powi (e + 1)\<close>\<close>
  "ilog2 x =
     (let (a, b) = quotient_of x; d = bitlen a - bitlen b
      in if 2 powi d \<le> x then d else d - 1)"

definition rnd :: "rat \<Rightarrow> pyfloat" where
  "rnd x =
     (if x = 0 then 0
      else let q = 2 powi (ilog2 \<bar>x\<bar> - 52) in of_int (round_half_even (x / q)) * q)"

datatype py_error = ZeroDivisionError | AttributeError | TypeError

definition fadd :: "pyfloat \<Rightarrow> pyfloat \<Rightarrow> pyfloat" where
  "fadd x y = rnd (x + y)"

definition fsub :: "pyfloat \<Rightarrow> pyfloat \<Rightarrow> pyfloat" where
  "fsub x y = rnd (x - y)"

definition fmul :: "pyfloat \<Rightarrow> pyfloat \<Rightarrow> pyfloat" where
  "fmul x y = rnd (x * y)"

definition fdiv :: "pyfloat \<Rightarrow> pyfloat \<Rightarrow> py_error + pyfloat" where
  "fdiv x y = (if y = 0 then Inl ZeroDivisionError else Inr (rnd (x / y)))"

definition py_int :: "pyfloat \<Rightarrow> int" where
  \<comment> \<open>\<open>int(x)\<close>: truncation towards zero\<close>
  "py_int x = (if 0 \<le> x then \<lfloor>x\<rfloor> else \<lceil>x\<rceil>)"

definition fmod1 :: "pyfloat \<Rightarrow> pyfloat" where
  \<comment> \<open>\<open>x % 1.0\<close>: the C \<open>fmod\<close>, which is exact, then \<open>+ 1.0\<close> when the remainder is negative\<close>
  "fmod1 x = (let m = x - of_int (py_int x) in if m < 0 then fadd m 1 else m)"

definition py_float :: "int \<Rightarrow> pyfloat" where
  \<comment> \<open>the conversion of an \<open>int\<close> operand in mixed arithmetic\<close>
  "py_float n = rnd (of_int n)"

definition int_truediv :: "int \<Rightarrow> int \<Rightarrow> py_error + pyfloat" where
  \<comment> \<open>\<open>a / b\<close> on two ints: the correctly rounded quotient\<close>
  "int_truediv a b = (if b = 0 then Inl ZeroDivisionError else Inr (rnd (of_int a / of_int b)))"

section \<open>The standard library's \<open>colorsys\<close>\<close>

definition ONE_THIRD :: pyfloat where "ONE_THIRD = rnd (1 / 3)"
definition ONE_SIXTH :: pyfloat where "ONE_SIXTH = rnd (1 / 6)"
definition TWO_THIRD :: pyfloat where "TWO_THIRD = rnd (2 / 3)"

definition rgb_to_hls :: "pyfloat \<Rightarrow> pyfloat \<Rightarrow> pyfloat \<Rightarrow> py_error + (pyfloat \<times> pyfloat \<times> pyfloat)" where
  "rgb_to_hls r g b =
     (let maxc = max r (max g b);
          minc = min r (min g b);
          sumc = fadd maxc minc;
          rangec = fsub maxc minc;
          l = rnd (sumc / 2)
      in if minc = maxc then Inr (0, l, 0)
         else case (if l \<le> 1 / 2 then fdiv rangec sumc
                    else fdiv rangec (fsub (fsub 2 maxc) minc)) of
           Inl e \<Rightarrow> Inl e
         | Inr s \<Rightarrow>
         (case fdiv (fsub maxc r) rangec of
           Inl e \<Rightarrow> Inl e
         | Inr rc \<Rightarrow>
         (case fdiv (fsub maxc g) rangec of
           Inl e \<Rightarrow> Inl e
         | Inr gc \<Rightarrow>
         (case fdiv (fsub maxc b) rangec of
           Inl e \<Rightarrow> Inl e
         | Inr bc \<Rightarrow>
           (let h = (if r = maxc then fsub bc gc
                     else if g = maxc then fsub (fadd 2 rc) bc
                     else fsub (fadd 4 gc) rc)
            in Inr (fmod1 (rnd (h / 6)), l, s))))))"

definition colorsys_v :: "pyfloat \<Rightarrow> pyfloat \<Rightarrow> pyfloat \<Rightarrow> pyfloat" where
  \<comment> \<open>\<open>colorsys._v\<close>\<close>
  "colorsys_v m1 m2 hue0 =
     (let hue = fmod1 hue0
      in if hue < ONE_SIXTH then fadd m1 (fmul (fmul (fsub m2 m1) hue) 6)
         else if hue < 1 / 2 then m2
         else if hue < TWO_THIRD then fadd m1 (fmul (fmul (fsub m2 m1) (fsub TWO_THIRD hue)) 6)
         else m1)"

definition hls_to_rgb :: "pyfloat \<Rightarrow> pyfloat \<Rightarrow> pyfloat \<Rightarrow> pyfloat \<times> pyfloat \<times> pyfloat" where
  "hls_to_rgb h l s =
     (if s = 0 then (l, l, l)
      else let m2 = (if l \<le> 1 / 2 then fmul l (fadd 1 s) else fsub (fadd l s) (fmul l s));
               m1 = fsub (fmul 2 l) m2
           in (colorsys_v m1 m2 (fadd h ONE_THIRD), colorsys_v m1 m2 h,
               colorsys_v m1 m2 (fsub h ONE_THIRD)))"

section \<open>\<open>calculate_colors.py\<close>: the per-icon colour extraction\<close>

definition ICON_SIZE :: int where "ICON_SIZE = 64"
definition COLS :: int where "COLS = 23"

text \<open>
  A pixel read from a PIL image is a tuple of band values.  The source distinguishes tuples
  of length 4 from the others, which it extends by an alpha of 255; the model has the
  four-band and the three-band pixel.
\<close>

datatype pixel = RGBA int int int int | RGB int int int

fun unpack :: "pixel \<Rightarrow> int \<times> int \<times> int \<times> int" where
  "unpack (RGBA r g b a) = (r, g, b, a)"
| "unpack (RGB r g b) = (r, g, b, 255)"

record image =
  img_size :: "nat \<times> nat"
  img_load :: "nat \<Rightarrow> nat \<Rightarrow> pixel"

definition pixel_seq :: "image \<Rightarrow> pixel list" where
  \<comment> \<open>the pixels in the order of \<open>for y in range(height): for x in range(width)\<close>\<close>
  "pixel_seq img =
     (case img_size img of (width, height) \<Rightarrow>
        concat (map (\<lambda>y. map (\<lambda>x. img_load img x y) [0..<width]) [0..<height]))"

type_synonym bucket_entry = "int \<times> int \<times> int \<times> pyfloat \<times> pyfloat"
type_synonym grey_entry = "int \<times> int \<times> int \<times> pyfloat"

record classes =
  buckets :: "bucket_entry list list"
  greys :: "grey_entry list"
  total_non_transparent :: nat

definition init_classes :: classes where
  "init_classes = \<lparr>buckets = replicate 36 [], greys = [], total_non_transparent = 0\<rparr>"

definition channel :: "int \<Rightarrow> pyfloat" where
  \<comment> \<open>\<open>r/255\<close>\<close>
  "channel r = rnd (of_int r / 255)"

definition hue_index :: "pyfloat \<Rightarrow> int" where
  \<comment> \<open>\<open>int(h * 36) % 36\<close>\<close>
  "hue_index h = py_int (fmul h 36) mod 36"

definition classify_pixel :: "classes \<Rightarrow> pixel \<Rightarrow> py_error + classes" where
  \<comment> \<open>the body of the pixel loop\<close>
  "classify_pixel st pixel =
     (case unpack pixel of (r, g, b, a) \<Rightarrow>
        if a < 64 then Inr st
        else let st1 = st\<lparr>total_non_transparent := total_non_transparent st + 1\<rparr>
             in case rgb_to_hls (channel r) (channel g) (channel b) of
                  Inl e \<Rightarrow> Inl e
                | Inr (h, l, s) \<Rightarrow>
                    if l < rnd (1 / 10) \<or> l > rnd (95 / 100) then Inr st1
                    else if s < rnd (20 / 100) then Inr (st1\<lparr>greys := greys st1 @ [(r, g, b, l)]\<rparr>)
                    else let hue_idx = nat (hue_index h)
                         in Inr (st1\<lparr>buckets := (buckets st1)
                                   [hue_idx := buckets st1 ! hue_idx @ [(r, g, b, s, l)]]\<rparr>))"

fun classify :: "classes \<Rightarrow> pixel list \<Rightarrow> py_error + classes" where
  "classify st [] = Inr st"
| "classify st (p # ps) =
     (case classify_pixel st p of Inl e \<Rightarrow> Inl e | Inr st' \<Rightarrow> classify st' ps)"

definition float_sum :: "pyfloat list \<Rightarrow> pyfloat" where
  \<comment> \<open>\<open>sum\<close> over floats, from the start value 0, left to right\<close>
  "float_sum xs = foldl fadd 0 xs"

definition saturation :: "bucket_entry \<Rightarrow> pyfloat" where
  \<comment> \<open>\<open>px[3]\<close>\<close>
  "saturation px = (case px of (r, g, b, s, l) \<Rightarrow> s)"

definition strength :: "bucket_entry list \<Rightarrow> pyfloat" where
  "strength bucket = float_sum (map saturation bucket)"

definition scan_step :: "bucket_entry list list \<Rightarrow> int \<times> pyfloat \<times> nat \<Rightarrow> nat \<Rightarrow> int \<times> pyfloat \<times> nat" where
  \<comment> \<open>the body of \<open>for i in range(36)\<close> on (best_bucket, max_strength, total_colored_pixels)\<close>
  "scan_step bs st i =
     (case st of (best_bucket, max_strength, total_colored_pixels) \<Rightarrow>
        if strength (bs ! i) > max_strength
        then (int i, strength (bs ! i), total_colored_pixels + length (bs ! i))
        else (best_bucket, max_strength, total_colored_pixels + length (bs ! i)))"

definition scan :: "bucket_entry list list \<Rightarrow> int \<times> pyfloat \<times> nat" where
  "scan bs = foldl (scan_step bs) (- 1, 0, 0) [0..<36]"

definition best_bucket :: "bucket_entry list list \<Rightarrow> int" where
  "best_bucket bs = fst (scan bs)"

definition total_colored_pixels :: "bucket_entry list list \<Rightarrow> nat" where
  "total_colored_pixels bs = snd (snd (scan bs))"

definition average :: "int list \<Rightarrow> py_error + pyfloat" where
  \<comment> \<open>\<open>sum(...) / len(b_pixels)\<close> on ints\<close>
  "average xs = int_truediv (sum_list xs) (int (length xs))"

definition boost :: "pyfloat \<Rightarrow> pyfloat \<Rightarrow> pyfloat \<Rightarrow> int \<times> int \<times> int" where
  \<comment> \<open>lines 69 to 72: the saturation boost, the fixed lightness, and the conversion to ints\<close>
  "boost h l s =
     (case hls_to_rgb h (rnd (55 / 100)) (min 1 (fmul s (3 / 2))) of (nr, ng, nb) \<Rightarrow>
        (py_int (fmul nr 255), py_int (fmul ng 255), py_int (fmul nb 255)))"

definition prime_color :: "bucket_entry list \<Rightarrow> py_error + (int \<times> int \<times> int)" where
  \<comment> \<open>lines 62 to 72, on \<open>b_pixels\<close>\<close>
  "prime_color b_pixels =
     (case average (map (\<lambda>(r, g, b, s, l). r) b_pixels) of Inl e \<Rightarrow> Inl e | Inr avg_r \<Rightarrow>
      case average (map (\<lambda>(r, g, b, s, l). g) b_pixels) of Inl e \<Rightarrow> Inl e | Inr avg_g \<Rightarrow>
      case average (map (\<lambda>(r, g, b, s, l). b) b_pixels) of Inl e \<Rightarrow> Inl e | Inr avg_b \<Rightarrow>
      case rgb_to_hls (rnd (avg_r / 255)) (rnd (avg_g / 255)) (rnd (avg_b / 255)) of
        Inl e \<Rightarrow> Inl e
      | Inr (h, l, s) \<Rightarrow> Inr (boost h l s))"

definition grey_color :: "grey_entry list \<Rightarrow> py_error + (int \<times> int \<times> int)" where
  \<comment> \<open>lines 77 to 80; \<open>avg_l\<close> is computed and not used\<close>
  "grey_color gs =
     (case fdiv (float_sum (map (\<lambda>(r, g, b, l). l) gs)) (py_float (int (length gs))) of
        Inl e \<Rightarrow> Inl e
      | Inr avg_l \<Rightarrow> (let l = rnd (65 / 100); v = py_int (fmul l 255) in Inr (v, v, v)))"

definition dominant_result :: "classes \<Rightarrow> py_error + ((int \<times> int \<times> int) option \<times> nat)" where
  \<comment> \<open>the body of the \<open>if\<close> at line 60\<close>
  "dominant_result st =
     (case prime_color (buckets st ! nat (best_bucket (buckets st))) of
        Inl e \<Rightarrow> Inl e
      | Inr c \<Rightarrow> Inr (Some c, total_non_transparent st))"

definition neutral_result :: "classes \<Rightarrow> py_error + ((int \<times> int \<times> int) option \<times> nat)" where
  \<comment> \<open>lines 74 to 82: the grey fallback, or no result\<close>
  "neutral_result st =
     (if greys st \<noteq> []
      then case grey_color (greys st) of
             Inl e \<Rightarrow> Inl e
           | Inr c \<Rightarrow> Inr (Some c, total_non_transparent st)
      else Inr (None, total_non_transparent st))"

definition accepted :: "classes \<Rightarrow> bool" where
  \<comment> \<open>the condition of the \<open>if\<close> at line 60\<close>
  "accepted st =
     (best_bucket (buckets st) \<noteq> - 1 \<and>
      of_nat (total_colored_pixels (buckets st)) >
        fmul (py_float (int (total_non_transparent st))) (rnd (15 / 100)))"

definition select :: "classes \<Rightarrow> py_error + ((int \<times> int \<times> int) option \<times> nat)" where
  \<comment> \<open>lines 45 to 82: from the buckets, the grey pool and the count to the result\<close>
  "select st = (if accepted st then dominant_result st else neutral_result st)"

definition calculate_average_color :: "image \<Rightarrow> py_error + ((int \<times> int \<times> int) option \<times> nat)" where
  "calculate_average_color img_crop =
     (case classify init_classes (pixel_seq img_crop) of
        Inl e \<Rightarrow> Inl e
      | Inr st \<Rightarrow> select st)"

section \<open>\<open>calculate_colors.py\<close>: the walk over the manifest\<close>

text \<open>
  The sprite sheet is the decoded RGBA image: its size and its pixel at each coordinate.
  \<open>Image.crop\<close> returns the box as an image of its own; a coordinate of the box
  that lies outside the sheet reads as the zero pixel.
\<close>

record sprite_sheet =
  sprite_width :: int
  sprite_height :: int
  getpixel :: "int \<Rightarrow> int \<Rightarrow> int \<times> int \<times> int \<times> int"

record item =
  item_id :: string
  item_name :: string
  iconIndex :: int

definition crop :: "sprite_sheet \<Rightarrow> int \<Rightarrow> int \<Rightarrow> image" where
  \<comment> \<open>\<open>sprite.crop((sx, sy, sx + ICON_SIZE, sy + ICON_SIZE))\<close>\<close>
  "crop sprite sx sy =
     \<lparr>img_size = (nat ICON_SIZE, nat ICON_SIZE),
      img_load = (\<lambda>x y.
        if 0 \<le> sx + int x \<and> sx + int x < sprite_width sprite \<and>
           0 \<le> sy + int y \<and> sy + int y < sprite_height sprite
        then (case getpixel sprite (sx + int x) (sy + int y) of (r, g, b, a) \<Rightarrow> RGBA r g b a)
        else RGBA 0 0 0 0)\<rparr>"

definition digit_char :: "nat \<Rightarrow> char" where
  "digit_char d = ''0123456789abcdef'' ! d"

fun hex_nat :: "nat \<Rightarrow> string" where
  "hex_nat n = (if n < 16 then [digit_char n] else hex_nat (n div 16) @ [digit_char (n mod 16)])"

fun dec_nat :: "nat \<Rightarrow> string" where
  "dec_nat n = (if n < 10 then [digit_char n] else dec_nat (n div 10) @ [digit_char (n mod 10)])"

definition str_int :: "int \<Rightarrow> string" where
  \<comment> \<open>an int inside an f-string\<close>
  "str_int n = (if n < 0 then CHR ''-'' # dec_nat (nat (- n)) else dec_nat (nat n))"

definition format_02x :: "int \<Rightarrow> string" where
  \<comment> \<open>\<open>{:02x}\<close>: lower-case hexadecimal, zero-padded to the width 2\<close>
  "format_02x n =
     (if n < 0 then CHR ''-'' # hex_nat (nat (- n))
      else replicate (2 - length (hex_nat (nat n))) CHR ''0'' @ hex_nat (nat n))"

definition hex_color :: "int \<times> int \<times> int \<Rightarrow> string" where
  "hex_color avg = (case avg of (r, g, b) \<Rightarrow> CHR ''#'' # format_02x r @ format_02x g @ format_02x b)"

type_synonym walk_state = "(string \<times> string) list \<times> string list"

definition process_item :: "sprite_sheet \<Rightarrow> walk_state \<Rightarrow> item \<Rightarrow> py_error + walk_state" where
  \<comment> \<open>the body of \<open>for item in data["items"]\<close> on (colors, log_lines)\<close>
  "process_item sprite st it =
     (case st of (colors, log_lines) \<Rightarrow>
        let idx = iconIndex it;
            sx = (idx mod COLS) * ICON_SIZE;
            sy = (idx div COLS) * ICON_SIZE
        in if sy + ICON_SIZE > sprite_height sprite
           then Inr (colors, log_lines @
                  [''Error: Icon '' @ str_int idx @ '' (Item: '' @ item_name it @
                   '') is outside sprite sheet (Height: '' @ str_int (sprite_height sprite) @ '')''])
           else case calculate_average_color (crop sprite sx sy) of
                  Inl e \<Rightarrow> Inl e
                | Inr (Some avg, non_trans) \<Rightarrow>
                    Inr (AList.update (item_id it) (hex_color avg) colors, log_lines)
                | Inr (None, non_trans) \<Rightarrow>
                    Inr (colors, log_lines @
                      [''Warning: No valid pixels found for '' @ item_name it @ '' (ID: '' @
                       item_id it @ '', Index: '' @ str_int idx @ '') - Non-trans count: '' @
                       str_int (int non_trans)]))"

fun walk :: "sprite_sheet \<Rightarrow> walk_state \<Rightarrow> item list \<Rightarrow> py_error + walk_state" where
  "walk sprite st [] = Inr st"
| "walk sprite st (it # items) =
     (case process_item sprite st it of Inl e \<Rightarrow> Inl e | Inr st' \<Rightarrow> walk sprite st' items)"

definition main :: "sprite_sheet option \<Rightarrow> item list \<Rightarrow> py_error + walk_state option" where
  \<comment> \<open>\<open>None\<close> for the sheet: no file at \<open>SPRITE_PATH\<close>; the result \<open>None\<close>: the early
      return, with nothing written\<close>
  "main sheet items =
     (case sheet of
        None \<Rightarrow> Inr None
      | Some sprite \<Rightarrow>
          (case walk sprite ([], [''Image Size: '' @ str_int (sprite_width sprite) @ ''x'' @
                                    str_int (sprite_height sprite)]) items of
             Inl e \<Rightarrow> Inl e
           | Inr st \<Rightarrow> Inr (Some st)))"

section \<open>\<open>scripts/patch_icons.py\<close>\<close>

text \<open>
  The document as \<open>json.load\<close> returns it.  An object is the list of its members in
  their order; \<open>AList.update\<close> is the assignment \<open>d[k] = v\<close>, which replaces the value
  of a present key in place and appends an absent one.
\<close>

datatype json =
    JNull
  | JBool bool
  | JInt int
  | JReal rat
  | JStr string
  | JArr "json list"
  | JObj "(string \<times> json) list"

definition mappings :: "(string \<times> int) list" where
  "mappings = [(''grating-crystal'', 11)]"

fun patch_item :: "json \<Rightarrow> py_error + (json \<times> nat)" where
  \<comment> \<open>the loop body: the item after it, and what it adds to \<open>updated_count\<close>.  A list or an
      object as \<open>id\<close> is unhashable; an item that is no object has no \<open>get\<close>\<close>
  "patch_item (JObj members) =
     (case map_of members ''id'' of
        Some (JStr key) \<Rightarrow>
          (case map_of mappings key of
             Some v \<Rightarrow> Inr (JObj (AList.update ''iconIndex'' (JInt v) members), 1)
           | None \<Rightarrow> Inr (JObj members, 0))
      | Some (JArr xs) \<Rightarrow> Inl TypeError
      | Some (JObj kvs) \<Rightarrow> Inl TypeError
      | _ \<Rightarrow> Inr (JObj members, 0))"
| "patch_item _ = Inl AttributeError"

fun patch_items :: "json list \<Rightarrow> py_error + (json list \<times> nat)" where
  "patch_items [] = Inr ([], 0)"
| "patch_items (x # xs) =
     (case patch_item x of
        Inl e \<Rightarrow> Inl e
      | Inr (x', c) \<Rightarrow>
          (case patch_items xs of Inl e \<Rightarrow> Inl e | Inr (xs', n) \<Rightarrow> Inr (x' # xs', c + n)))"

definition patch_icons :: "json \<Rightarrow> py_error + (json \<times> nat)" where
  \<comment> \<open>from the loaded document to the dumped document and \<open>updated_count\<close>; an error leaves
      the file as it was\<close>
  "patch_icons data =
     (case data of
        JObj members \<Rightarrow>
          (case map_of members ''items'' of
             None \<Rightarrow> Inr (data, 0)
           | Some (JArr xs) \<Rightarrow>
               (case patch_items xs of
                  Inl e \<Rightarrow> Inl e
                | Inr (xs', n) \<Rightarrow> Inr (JObj (AList.update ''items'' (JArr xs') members), n))
           | Some (JObj kvs) \<Rightarrow> if kvs = [] then Inr (data, 0) else Inl AttributeError
           | Some (JStr s) \<Rightarrow> if s = [] then Inr (data, 0) else Inl AttributeError
           | Some _ \<Rightarrow> Inl TypeError)
      | _ \<Rightarrow> Inl AttributeError)"

section \<open>Notions used in the statements\<close>

definition alpha :: "pixel \<Rightarrow> int" where
  \<comment> \<open>the \<open>a\<close> that the pixel loop unpacks\<close>
  "alpha p = (case unpack p of (r, g, b, a) \<Rightarrow> a)"

definition items_of :: "json \<Rightarrow> json list" where
  \<comment> \<open>the elements of the list under \<open>items\<close>; none when the key is absent\<close>
  "items_of data =
     (case data of
        JObj members \<Rightarrow> (case map_of members ''items'' of Some (JArr xs) \<Rightarrow> xs | _ \<Rightarrow> [])
      | _ \<Rightarrow> [])"

definition field :: "json \<Rightarrow> string \<Rightarrow> json option" where
  "field x k = (case x of JObj members \<Rightarrow> map_of members k | _ \<Rightarrow> None)"

definition keys :: "json \<Rightarrow> string list" where
  "keys x = (case x of JObj members \<Rightarrow> map fst members | _ \<Rightarrow> [])"

definition mapped :: "json \<Rightarrow> bool" where
  \<comment> \<open>the item's \<open>id\<close> is a key of \<open>mappings\<close>\<close>
  "mapped x =
     (case field x ''id'' of Some (JStr key) \<Rightarrow> map_of mappings key \<noteq> None | _ \<Rightarrow> False)"

definition hashable :: "json \<Rightarrow> bool" where
  "hashable v = (case v of JArr xs \<Rightarrow> False | JObj kvs \<Rightarrow> False | _ \<Rightarrow> True)"

definition well_formed_item :: "json \<Rightarrow> bool" where
  \<comment> \<open>an object whose \<open>id\<close>, when present, is hashable\<close>
  "well_formed_item x =
     (case x of
        JObj members \<Rightarrow> (case map_of members ''id'' of None \<Rightarrow> True | Some v \<Rightarrow> hashable v)
      | _ \<Rightarrow> False)"

definition well_formed :: "json \<Rightarrow> bool" where
  \<comment> \<open>a manifest: an object whose \<open>items\<close>, when present, is a list of well-formed items\<close>
  "well_formed data =
     (case data of
        JObj members \<Rightarrow>
          (case map_of members ''items'' of
             None \<Rightarrow> True
           | Some (JArr xs) \<Rightarrow> list_all well_formed_item xs
           | _ \<Rightarrow> False)
      | _ \<Rightarrow> False)"

definition item_rel :: "json \<Rightarrow> json \<Rightarrow> bool" where
  \<comment> \<open>an item before and after the loop body: a mapped item keeps its keys in their order
      (\<open>iconIndex\<close> is appended when absent) and every field but \<open>iconIndex\<close>, which becomes the
      mapped value; any other item is unchanged\<close>
  "item_rel x x' =
     (if mapped x
      then keys x' = (if field x ''iconIndex'' = None then keys x @ [''iconIndex''] else keys x) \<and>
           (\<forall>k. k \<noteq> ''iconIndex'' \<longrightarrow> field x' k = field x k) \<and>
           (\<exists>key v. field x ''id'' = Some (JStr key) \<and> map_of mappings key = Some v \<and>
                    field x' ''iconIndex'' = Some (JInt v))
      else x' = x)"

definition scan_upto :: "bucket_entry list list \<Rightarrow> nat \<Rightarrow> int \<times> pyfloat \<times> nat" where
  \<comment> \<open>the state of the strength scan after the first \<open>n\<close> rounds\<close>
  "scan_upto bs n = foldl (scan_step bs) (- 1, 0, 0) [0..<n]"

definition byte :: "int \<Rightarrow> bool" where
  \<comment> \<open>a band value of an 8-bit image\<close>
  "byte c = (0 \<le> c \<and> c \<le> 255)"

definition saturated :: "classes \<Rightarrow> bool" where
  \<comment> \<open>every bucketed pixel has a saturation of at least 0.20\<close>
  "saturated st = (\<forall>b\<in>set (buckets st). \<forall>e\<in>set b. rnd (20 / 100) \<le> saturation e)"

definition byte_pixel :: "pixel \<Rightarrow> bool" where
  "byte_pixel p = (case unpack p of (r, g, b, a) \<Rightarrow> byte r \<and> byte g \<and> byte b)"

definition byte_entry :: "bucket_entry \<Rightarrow> bool" where
  "byte_entry px = (case px of (r, g, b, s, l) \<Rightarrow> byte r \<and> byte g \<and> byte b)"

definition byte_classes :: "classes \<Rightarrow> bool" where
  "byte_classes st = (\<forall>b\<in>set (buckets st). \<forall>e\<in>set b. byte_entry e)"

definition byte_sheet :: "sprite_sheet \<Rightarrow> bool" where
  \<comment> \<open>what \<open>Image.open(...).convert("RGBA")\<close> yields: every band of every pixel is 8-bit\<close>
  "byte_sheet sprite =
     (\<forall>x y. case getpixel sprite x y of (r, g, b, a) \<Rightarrow> byte r \<and> byte g \<and> byte b)"

definition cell_out_of_bounds :: "sprite_sheet \<Rightarrow> item \<Rightarrow> bool" where
  \<comment> \<open>the check of line 102\<close>
  "cell_out_of_bounds sprite it =
     ((iconIndex it div COLS) * ICON_SIZE + ICON_SIZE > sprite_height sprite)"

definition extraction ::
    "sprite_sheet \<Rightarrow> item \<Rightarrow> py_error + ((int \<times> int \<times> int) option \<times> nat)" where
  \<comment> \<open>lines 106 and 107: the crop of the item's cell and its colour\<close>
  "extraction sprite it =
     calculate_average_color
       (crop sprite ((iconIndex it mod COLS) * ICON_SIZE) ((iconIndex it div COLS) * ICON_SIZE))"

definition fails :: "sprite_sheet \<Rightarrow> item \<Rightarrow> bool" where
  \<comment> \<open>a per-item failure: the cell is out of bounds, or the extraction yields no result\<close>
  "fails sprite it =
     (cell_out_of_bounds sprite it \<or>
      (case extraction sprite it of Inr (None, n) \<Rightarrow> True | _ \<Rightarrow> False))"

definition succeeds :: "sprite_sheet \<Rightarrow> item \<Rightarrow> bool" where
  "succeeds sprite it =
     (\<not> cell_out_of_bounds sprite it \<and>
      (case extraction sprite it of Inr (Some avg, n) \<Rightarrow> True | _ \<Rightarrow> False))"

section \<open>Concrete inputs\<close>

definition red_state :: classes where
  \<comment> \<open>the classes of the single opaque pixel (255, 0, 0)\<close>
  "red_state = \<lparr>buckets = [(255, 0, 0, 1, 1 / 2)] # replicate 35 [], greys = [],
                 total_non_transparent = 1\<rparr>"

definition tie_buckets :: "bucket_entry list list" where
  \<comment> \<open>buckets 3 and 7 hold one pixel each, of the same saturation\<close>
  "tie_buckets = (replicate 36 [])[3 := [(200, 100, 37, 1 / 2, 1 / 2)],
                                   7 := [(10, 20, 200, 1 / 2, 1 / 4)]]"

definition grey_state :: classes where
  \<comment> \<open>the classes of the single opaque pixel (128, 128, 128)\<close>
  "grey_state = \<lparr>buckets = replicate 36 [],
                  greys = [(128, 128, 128, 282578800148737 / 562949953421312)],
                  total_non_transparent = 1\<rparr>"

definition boundary_pixels :: "pixel list" where
  \<comment> \<open>three red pixels and seventeen white ones: 3 of 20 opaque pixels are coloured\<close>
  "boundary_pixels = replicate 3 (RGBA 255 0 0 255) @ replicate 17 (RGBA 255 255 255 255)"

definition boundary_state :: classes where
  "boundary_state = \<lparr>buckets = replicate 3 (255, 0, 0, 1, 1 / 2) # replicate 35 [], greys = [],
                      total_non_transparent = 20\<rparr>"

definition red_sheet :: sprite_sheet where
  \<comment> \<open>one row of 23 cells, every pixel opaque red\<close>
  "red_sheet = \<lparr>sprite_width = 1472, sprite_height = 64,
                 getpixel = (\<lambda>x y. (255, 0, 0, 255))\<rparr>"

definition red_item :: item where
  "red_item = \<lparr>item_id = ''red-plate'', item_name = ''Red Plate'', iconIndex = 5\<rparr>"

definition red_item_twin :: item where
  \<comment> \<open>a second item of the same id, whose cell is below the sheet\<close>
  "red_item_twin = \<lparr>item_id = ''red-plate'', item_name = ''Red Plate II'', iconIndex = 28\<rparr>"

section \<open>Properties of the rounding\<close>


lemma pow2_pos: "0 < (2::rat) powi e" by simp

lemma pow2_mono: "a \<le> b \<Longrightarrow> (2::rat) powi a \<le> 2 powi b"
  by (rule power_int_increasing) auto

lemma pow2_strict: "a < b \<Longrightarrow> (2::rat) powi a < 2 powi b"
  by (rule power_int_strict_increasing) auto

lemma pow2_less_iff: "(2::rat) powi a < 2 powi b \<longleftrightarrow> a < b"
  using pow2_strict[of a b] pow2_mono[of b a] by (cases "a < b") auto

lemma pow2_succ: "(2::rat) powi (e + 1) = 2 * 2 powi e"
  by (simp add: power_int_add)

lemma ilog2_bounds:
  assumes "0 < x"
  shows "2 powi (ilog2 x) \<le> x \<and> x < 2 powi (ilog2 x + 1)"
proof -
  obtain a b where q: "quotient_of x = (a, b)" by (cases "quotient_of x")
  then have b: "0 < b" by (rule quotient_of_denom_pos)
  have x: "x = of_int a / of_int b" using q by (metis quotient_of_div)
  have a: "0 < a" using assms b x by (simp add: zero_less_divide_iff)
  define d where "d = bitlen a - bitlen b"
  have la: "1 \<le> bitlen a" and lb: "1 \<le> bitlen b"
    using a b bitlen_eq_zero_iff[of a] bitlen_eq_zero_iff[of b] bitlen_nonneg[of a] bitlen_nonneg[of b]
    by linarith+
  have ba: "(2::rat) powi (bitlen a - 1) \<le> of_int a" "of_int a < (2::rat) powi (bitlen a)"
  proof -
    have "(2::int) ^ nat (bitlen a - 1) \<le> a" "a < 2 ^ nat (bitlen a)"
      using bitlen_bounds[OF a] by auto
    then have "(of_int ((2::int) ^ nat (bitlen a - 1)) :: rat) \<le> of_int a" "(of_int a :: rat) < of_int (2 ^ nat (bitlen a))"
      by (simp_all only: of_int_le_iff of_int_less_iff)
    then show "(2::rat) powi (bitlen a - 1) \<le> of_int a" "of_int a < (2::rat) powi (bitlen a)"
      using la by (simp_all add: power_int_def)
  qed
  have bb: "(2::rat) powi (bitlen b - 1) \<le> of_int b" "of_int b < (2::rat) powi (bitlen b)"
  proof -
    have "(2::int) ^ nat (bitlen b - 1) \<le> b" "b < 2 ^ nat (bitlen b)"
      using bitlen_bounds[OF b] by auto
    then have "(of_int ((2::int) ^ nat (bitlen b - 1)) :: rat) \<le> of_int b" "(of_int b :: rat) < of_int (2 ^ nat (bitlen b))"
      by (simp_all only: of_int_le_iff of_int_less_iff)
    then show "(2::rat) powi (bitlen b - 1) \<le> of_int b" "of_int b < (2::rat) powi (bitlen b)"
      using lb by (simp_all add: power_int_def)
  qed
  have bpos: "(0::rat) < of_int b" using b by simp
  have up: "x < 2 powi (d + 1)"
  proof -
    have "of_int a * (2::rat) powi (bitlen b - 1) < 2 powi (bitlen a) * of_int b"
      using ba(2) bb(1) a by (intro mult_less_le_imp_less) auto
    also have "(2::rat) powi (bitlen a) = 2 powi (d + 1) * 2 powi (bitlen b - 1)"
      unfolding d_def by (simp flip: power_int_add)
    finally have "of_int a < (2::rat) powi (d + 1) * of_int b"
      by (simp add: mult.commute mult.left_commute)
    then show ?thesis unfolding x using bpos by (simp add: pos_divide_less_eq)
  qed
  have lo: "2 powi (d - 1) < x"
  proof -
    have "(2::rat) powi (bitlen a - 1) * of_int b < of_int a * 2 powi (bitlen b)"
      using ba(1) bb(2) a b by (intro mult_le_less_imp_less) auto
    moreover have "(2::rat) powi (bitlen a - 1) = 2 powi (d - 1) * 2 powi (bitlen b)"
      unfolding d_def by (simp flip: power_int_add)
    ultimately have "(2::rat) powi (d - 1) * of_int b < of_int a"
      by (simp add: mult.commute mult.left_commute)
    then show ?thesis unfolding x using bpos by (simp add: pos_less_divide_eq)
  qed
  have e: "ilog2 x = (if 2 powi d \<le> x then d else d - 1)"
    unfolding ilog2_def q d_def by (simp add: Let_def)
  show ?thesis
  proof (cases "2 powi d \<le> x")
    case True
    then show ?thesis using e up by simp
  next
    case False
    then show ?thesis using e lo by simp
  qed
qed

lemma ilog2_unique:
  assumes "2 powi e \<le> x" "x < 2 powi (e + 1)"
  shows "ilog2 x = e"
proof -
  have x: "0 < x" using assms(1) pow2_pos[of e] by linarith
  note b = ilog2_bounds[OF x]
  have "\<not> e < ilog2 x"
  proof
    assume "e < ilog2 x"
    then have "(2::rat) powi (e + 1) \<le> 2 powi (ilog2 x)" by (intro pow2_mono) simp
    with b assms show False by linarith
  qed
  moreover have "\<not> ilog2 x < e"
  proof
    assume "ilog2 x < e"
    then have "(2::rat) powi (ilog2 x + 1) \<le> 2 powi e" by (intro pow2_mono) simp
    with b assms show False by linarith
  qed
  ultimately show ?thesis by simp
qed


lemma rhe_unfold:
  assumes "of_int f \<le> x" "x < of_int f + 1"
  shows "round_half_even x =
    (if x - of_int f < 1 / 2 then f else if 1 / 2 < x - of_int f then f + 1
     else if even f then f else f + 1)"
proof -
  have "\<lfloor>x\<rfloor> = f" using assms by linarith
  then show ?thesis by (simp add: round_half_even_def Let_def)
qed

lemma floor_frame: "of_int \<lfloor>x::rat\<rfloor> \<le> x \<and> x < of_int \<lfloor>x\<rfloor> + 1"
  by linarith

lemma rhe_cases:
  "round_half_even x = \<lfloor>x\<rfloor> \<or> round_half_even x = \<lfloor>x\<rfloor> + 1"
  by (simp add: round_half_even_def Let_def)

lemma rhe_of_int: "round_half_even (of_int n) = n"
  by (simp add: round_half_even_def)

lemma rhe_bounds:
  "of_int (round_half_even x) - 1 / 2 \<le> x \<and> x \<le> of_int (round_half_even x) + 1 / 2"
proof -
  obtain f where f: "of_int f \<le> x" "x < of_int f + 1" using floor_frame[of x] by blast
  show ?thesis unfolding rhe_unfold[OF f] using f by (auto split: if_splits)
qed

lemma rhe_mono:
  assumes "x \<le> y"
  shows "round_half_even x \<le> round_half_even y"
proof (cases "\<lfloor>x\<rfloor> = \<lfloor>y\<rfloor>")
  case True
  obtain f where f: "of_int f \<le> x" "x < of_int f + 1" "of_int f \<le> y" "y < of_int f + 1"
    using floor_frame[of x] floor_frame[of y] True by metis
  show ?thesis unfolding rhe_unfold[OF f(1,2)] rhe_unfold[OF f(3,4)] using assms
    by (auto split: if_splits)
next
  case False
  then have "\<lfloor>x\<rfloor> < \<lfloor>y\<rfloor>" using floor_mono[OF assms] by linarith
  moreover have "round_half_even x \<le> \<lfloor>x\<rfloor> + 1" using rhe_cases[of x] by auto
  moreover have "\<lfloor>y\<rfloor> \<le> round_half_even y" using rhe_cases[of y] by auto
  ultimately show ?thesis by linarith
qed

lemma rhe_nearest:
  assumes "\<bar>x - of_int n\<bar> < 1 / 2"
  shows "round_half_even x = n"
proof -
  note b = rhe_bounds[of x]
  have "\<bar>(of_int (round_half_even x) :: rat) - of_int n\<bar> < 1"
    using assms b by linarith
  then have "\<bar>(of_int (round_half_even x - n) :: rat)\<bar> < 1" by simp
  then have "\<bar>round_half_even x - n\<bar> < 1"
    by (metis of_int_abs of_int_less_1_iff)
  then show ?thesis by simp
qed

lemma rhe_minus: "round_half_even (- x) = - round_half_even x"
proof (cases "x = of_int \<lfloor>x\<rfloor>")
  case True
  then obtain n where n: "x = of_int n" ..
  have "round_half_even (of_int (- n)) = - n" by (rule rhe_of_int)
  then show ?thesis unfolding n by (simp add: rhe_of_int)
next
  case False
  obtain f where f: "of_int f \<le> x" "x < of_int f + 1" using floor_frame[of x] by blast
  have ne: "x \<noteq> of_int f" using False f by (metis floor_unique)
  have g: "of_int (- f - 1) \<le> - x" "- x < of_int (- f - 1) + 1" using f ne by simp_all
  show ?thesis unfolding rhe_unfold[OF f] rhe_unfold[OF g] using f ne
    by (auto split: if_splits)
qed

lemma rnd_eq:
  assumes "2 powi e \<le> x" "x < 2 powi (e + 1)"
  shows "rnd x = of_int (round_half_even (x / 2 powi (e - 52))) * 2 powi (e - 52)"
proof -
  have x: "0 < x" using assms(1) pow2_pos[of e] by linarith
  then have "ilog2 \<bar>x\<bar> = e" using ilog2_unique[OF assms] by simp
  then show ?thesis using x by (simp add: rnd_def Let_def)
qed

lemma ilog2_abs_minus: "ilog2 \<bar>- x\<bar> = ilog2 \<bar>x\<bar>" by simp

lemma rnd_minus: "rnd (- x) = - rnd x"
  by (simp add: rnd_def Let_def rhe_minus)

lemma rnd_zero: "rnd 0 = 0" by (simp add: rnd_def)

lemma rnd_binade:
  assumes "2 powi e \<le> x" "x < 2 powi (e + 1)"
  shows "2 powi e \<le> rnd x \<and> rnd x \<le> 2 powi (e + 1)"
proof -
  let ?q = "(2::rat) powi (e - 52)"
  have q: "0 < ?q" by simp
  have lo: "(2::rat) powi e = of_int (2 ^ 52) * ?q"
    by (simp add: power_int_diff)
  have hi: "(2::rat) powi (e + 1) = of_int (2 ^ 53) * ?q"
    by (simp add: power_int_diff power_int_add)
  have "of_int (2 ^ 52) \<le> x / ?q" using assms(1) q unfolding lo
    by (simp add: pos_le_divide_eq)
  then have a: "2 ^ 52 \<le> round_half_even (x / ?q)"
    using rhe_mono[of "of_int (2 ^ 52)" "x / ?q"] by (simp only: rhe_of_int)
  have "x / ?q \<le> of_int (2 ^ 53)" using assms(2) q unfolding hi
    by (simp add: pos_divide_le_eq)
  then have b: "round_half_even (x / ?q) \<le> 2 ^ 53"
    using rhe_mono[of "x / ?q" "of_int (2 ^ 53)"] by (simp only: rhe_of_int)
  have "of_int (2 ^ 52) * ?q \<le> of_int (round_half_even (x / ?q)) * ?q"
    using a q by (intro mult_right_mono) (simp_all only: of_int_le_iff less_imp_le)
  moreover have "of_int (round_half_even (x / ?q)) * ?q \<le> of_int (2 ^ 53) * ?q"
    using b q by (intro mult_right_mono) (simp_all only: of_int_le_iff less_imp_le)
  ultimately show ?thesis unfolding rnd_eq[OF assms] lo hi by simp
qed

lemma rnd_pos: "0 < x \<Longrightarrow> 0 < rnd x"
  using rnd_binade[of "ilog2 x" x] ilog2_bounds[of x] pow2_pos[of "ilog2 x"] by linarith

lemma rnd_mono_pos:
  assumes "0 < x" "x \<le> y"
  shows "rnd x \<le> rnd y"
proof -
  have y: "0 < y" using assms by simp
  note bx = ilog2_bounds[OF assms(1)] and by' = ilog2_bounds[OF y]
  show ?thesis
  proof (cases "ilog2 x = ilog2 y")
    case True
    let ?q = "(2::rat) powi (ilog2 y - 52)"
    have "x / ?q \<le> y / ?q" using assms(2) by (simp add: divide_right_mono)
    then have "round_half_even (x / ?q) \<le> round_half_even (y / ?q)" by (rule rhe_mono)
    then have "(of_int (round_half_even (x / ?q)) :: rat) * ?q \<le> of_int (round_half_even (y / ?q)) * ?q"
      by (intro mult_right_mono) simp_all
    then show ?thesis
      using rnd_eq[of "ilog2 y" x] rnd_eq[of "ilog2 y" y] bx by' True by simp
  next
    case False
    have "\<not> ilog2 y < ilog2 x"
    proof
      assume "ilog2 y < ilog2 x"
      then have "(2::rat) powi (ilog2 y + 1) \<le> 2 powi (ilog2 x)" by (intro pow2_mono) simp
      with bx by' assms show False by linarith
    qed
    with False have "ilog2 x + 1 \<le> ilog2 y" by simp
    then have "(2::rat) powi (ilog2 x + 1) \<le> 2 powi (ilog2 y)" by (rule pow2_mono)
    moreover have "rnd x \<le> 2 powi (ilog2 x + 1)" using rnd_binade[of "ilog2 x" x] bx by simp
    moreover have "2 powi (ilog2 y) \<le> rnd y" using rnd_binade[of "ilog2 y" y] by' by simp
    ultimately show ?thesis by linarith
  qed
qed

lemma rnd_mono:
  assumes "x \<le> y"
  shows "rnd x \<le> rnd y"
proof -
  consider "0 < x" | "x \<le> 0" "0 < y" | "y = 0" | "y < 0" using assms by linarith
  then show ?thesis
  proof cases
    case 1
    then show ?thesis using assms by (rule rnd_mono_pos)
  next
    case 2
    have "rnd x \<le> 0"
    proof (cases "x = 0")
      case True then show ?thesis by (simp add: rnd_zero)
    next
      case False
      then have "0 < - x" using 2 by simp
      then have "0 < rnd (- x)" by (rule rnd_pos)
      then show ?thesis by (simp add: rnd_minus)
    qed
    moreover have "0 < rnd y" using 2 by (simp add: rnd_pos)
    ultimately show ?thesis by simp
  next
    case 3
    have "rnd x \<le> 0"
    proof (cases "x = 0")
      case True then show ?thesis by (simp add: rnd_zero)
    next
      case False
      then have "0 < - x" using 3 assms by simp
      then have "0 < rnd (- x)" by (rule rnd_pos)
      then show ?thesis by (simp add: rnd_minus)
    qed
    then show ?thesis using 3 by (simp add: rnd_zero)
  next
    case 4
    then have "0 < - y" "- y \<le> - x" using assms by simp_all
    then have "rnd (- y) \<le> rnd (- x)" by (rule rnd_mono_pos)
    then show ?thesis by (simp add: rnd_minus)
  qed
qed


lemma rnd_repr:
  assumes "2 powi e \<le> x" "x < 2 powi (e + 1)" "x / 2 powi (e - 52) = of_int m"
  shows "rnd x = x"
proof -
  have "rnd x = of_int m * 2 powi (e - 52)"
    unfolding rnd_eq[OF assms(1,2)] assms(3) by (simp only: rhe_of_int)
  also have "\<dots> = x" using assms(3) by (simp add: field_simps)
  finally show ?thesis .
qed

lemma rnd_dyadic_pos:
  assumes "0 < m" "m < 2 ^ 53"
  shows "rnd (of_int m * 2 powi k) = of_int m * 2 powi k"
proof -
  define e where "e = ilog2 (of_int m)"
  have mp: "(0::rat) < of_int m" using assms(1) by simp
  note b = ilog2_bounds[OF mp, folded e_def]
  have "(2::rat) powi e < 2 powi 53"
  proof -
    have "(of_int m :: rat) < of_int (2 ^ 53)" using assms(2) by (simp only: of_int_less_iff)
    then show ?thesis using b by simp
  qed
  then have e53: "e < 53" by (simp only: pow2_less_iff)
  have "(2::rat) powi 0 \<le> of_int m" using assms(1) by simp
  then have "(2::rat) powi 0 < 2 powi (e + 1)" using b by linarith
  then have e0: "0 \<le> e" by (simp only: pow2_less_iff)
  let ?x = "(of_int m :: rat) * 2 powi k"
  have 1: "2 powi (e + k) \<le> ?x" using b by (simp add: power_int_add)
  have 2: "?x < 2 powi (e + k + 1)"
  proof -
    have "?x < 2 powi (e + 1) * 2 powi k" using b by simp
    also have "\<dots> = 2 powi (e + k + 1)" by (simp add: power_int_add)
    finally show ?thesis .
  qed
  have "?x / 2 powi (e + k - 52) = of_int m * 2 powi (52 - e)"
    by (simp add: power_int_diff power_int_add)
  also have "\<dots> = of_int m * 2 ^ nat (52 - e)" using e53 by (simp add: power_int_def)
  also have "\<dots> = of_int (m * 2 ^ nat (52 - e))" by simp
  finally have 3: "?x / 2 powi (e + k - 52) = of_int (m * 2 ^ nat (52 - e))" .
  show ?thesis by (rule rnd_repr[OF 1 2 3])
qed

lemma rnd_dyadic:
  assumes "\<bar>m\<bar> < 2 ^ 53"
  shows "rnd (of_int m * 2 powi k) = of_int m * 2 powi k"
proof -
  consider "m = 0" | "0 < m" | "m < 0" by linarith
  then show ?thesis
  proof cases
    case 1 then show ?thesis by (simp add: rnd_zero)
  next
    case 2 then show ?thesis using assms by (intro rnd_dyadic_pos) simp_all
  next
    case 3
    then have "rnd (of_int (- m) * 2 powi k) = of_int (- m) * 2 powi k"
      using assms by (intro rnd_dyadic_pos) simp_all
    then have "rnd (- (of_int m * 2 powi k)) = - (of_int m * 2 powi k)" by simp
    then show ?thesis by (simp only: rnd_minus neg_equal_iff_equal)
  qed
qed

lemma rnd_of_int:
  assumes "\<bar>n\<bar> < 2 ^ 53"
  shows "rnd (of_int n) = of_int n"
  using rnd_dyadic[OF assms, of 0] by simp

lemma rnd_err_pos:
  assumes "0 < x"
  shows "\<bar>rnd x - x\<bar> \<le> x * 2 powi (- 53)"
proof -
  define e where "e = ilog2 x"
  note b = ilog2_bounds[OF assms, folded e_def]
  let ?q = "(2::rat) powi (e - 52)"
  have q: "0 < ?q" by simp
  note r = rhe_bounds[of "x / ?q"]
  have "\<bar>of_int (round_half_even (x / ?q)) - x / ?q\<bar> \<le> 1 / 2" using r by linarith
  then have "\<bar>of_int (round_half_even (x / ?q)) - x / ?q\<bar> * ?q \<le> 1 / 2 * ?q"
    using q by (intro mult_right_mono) simp_all
  moreover have "\<bar>of_int (round_half_even (x / ?q)) - x / ?q\<bar> * ?q
      = \<bar>of_int (round_half_even (x / ?q)) * ?q - x\<bar>"
  proof -
    have "\<bar>of_int (round_half_even (x / ?q)) - x / ?q\<bar> * ?q
      = \<bar>(of_int (round_half_even (x / ?q)) - x / ?q) * ?q\<bar>"
      using q by (simp add: abs_mult)
    also have "(of_int (round_half_even (x / ?q)) - x / ?q) * ?q
      = of_int (round_half_even (x / ?q)) * ?q - x"
      using q by (simp add: algebra_simps)
    finally show ?thesis .
  qed
  ultimately have "\<bar>rnd x - x\<bar> \<le> 1 / 2 * ?q"
    using rnd_eq[of e x] b by simp
  also have "1 / 2 * ?q = 2 powi e * 2 powi (- 53)"
    by (simp add: power_int_diff power_int_minus field_simps)
  also have "\<dots> \<le> x * 2 powi (- 53)"
    using b by (intro mult_right_mono) simp_all
  finally show ?thesis .
qed

lemma rnd_err: "\<bar>rnd x - x\<bar> \<le> \<bar>x\<bar> * 2 powi (- 53)"
proof -
  consider "x = 0" | "0 < x" | "x < 0" by linarith
  then show ?thesis
  proof cases
    case 1 then show ?thesis by (simp add: rnd_zero)
  next
    case 2 then show ?thesis using rnd_err_pos[of x] by simp
  next
    case 3
    then have "\<bar>rnd (- x) - (- x)\<bar> \<le> (- x) * 2 powi (- 53)" by (intro rnd_err_pos) simp
    then show ?thesis using 3 by (simp add: rnd_minus abs_minus_commute)
  qed
qed

section \<open>Properties of the classifier\<close>

lemma classify_pixel_transparent: "alpha p < 64 \<Longrightarrow> classify_pixel st p = Inr st"
  by (cases p) (simp_all add: classify_pixel_def alpha_def)

lemma hue_index_range: "0 \<le> hue_index h \<and> hue_index h < 36"
  by (simp add: hue_index_def)

lemma hue_index_examples: "hue_index (rnd (999999 / 1000000)) = 35 \<and> hue_index 1 = 0"
  by code_simp

lemma classify_pixel_length:
  "classify_pixel st p = Inr st' \<Longrightarrow> length (buckets st') = length (buckets st)"
  by (auto simp: classify_pixel_def Let_def split: prod.splits if_splits sum.splits)

lemma classify_length:
  "classify st ps = Inr st' \<Longrightarrow> length (buckets st') = length (buckets st)"
proof (induction ps arbitrary: st)
  case Nil then show ?case by simp
next
  case (Cons p ps)
  then show ?case by (auto split: sum.splits dest: classify_pixel_length)
qed

lemma red_hls: "rgb_to_hls (channel 255) (channel 0) (channel 0) = Inr (0, 1 / 2, 1)"
  by code_simp

lemma classify_red_pixel:
  "classify_pixel init_classes (RGBA 255 0 0 255) = Inr red_state"
  by code_simp

lemma classify_red: "classify init_classes [RGBA 255 0 0 255] = Inr red_state"
  by (simp add: classify_red_pixel)

section \<open>Properties of the patch script\<close>

lemma keys_update:
  "map fst (AList.update k v al) = (if map_of al k = None then map fst al @ [k] else map fst al)"
  by (induction al) auto

lemma patch_item_rel:
  assumes "patch_item x = Inr (x', c)"
  shows "item_rel x x' \<and> c = (if mapped x then 1 else 0)"
proof (cases x)
  case (JObj members)
  show ?thesis
  proof (cases "map_of members ''id''")
    case None
    then show ?thesis using assms JObj by (auto simp: item_rel_def mapped_def field_def)
  next
    case (Some idv)
    show ?thesis
    proof (cases idv)
      case (JStr key)
      show ?thesis
      proof (cases "map_of mappings key")
        case None
        then show ?thesis using assms JObj Some JStr
          by (auto simp: item_rel_def mapped_def field_def)
      next
        case (Some v)
        then show ?thesis using assms JObj \<open>map_of members ''id'' = Some idv\<close> JStr
          by (auto simp: item_rel_def mapped_def field_def keys_def keys_update update_conv')
      qed
    qed (use assms JObj Some in \<open>auto simp: item_rel_def mapped_def field_def\<close>)
  qed
qed (use assms in simp_all)

lemma patch_items_rel:
  "patch_items xs = Inr (xs', n) \<Longrightarrow>
     list_all2 item_rel xs xs' \<and> n = length (filter mapped xs)"
proof (induction xs arbitrary: xs' n)
  case Nil
  then show ?case by simp
next
  case (Cons x xs)
  from Cons.prems obtain x' c ys m where
    a: "patch_item x = Inr (x', c)" and b: "patch_items xs = Inr (ys, m)"
    and c: "xs' = x' # ys" "n = c + m"
    by (auto split: sum.splits prod.splits)
  show ?case using patch_item_rel[OF a] Cons.IH[OF b] c by simp
qed


lemma map_of_update_other: "k \<noteq> k' \<Longrightarrow> map_of (AList.update k' v al) k = map_of al k"
  by (simp add: update_conv')

lemma patch_icons_frame_aux:
  assumes "patch_icons data = Inr (data', n)"
  shows "list_all2 item_rel (items_of data) (items_of data') \<and>
         n = length (filter mapped (items_of data)) \<and>
         keys data' = keys data \<and>
         (\<forall>k. k \<noteq> ''items'' \<longrightarrow> field data' k = field data k)"
proof (cases data)
  case (JObj members)
  show ?thesis
  proof (cases "map_of members ''items''")
    case None
    then show ?thesis using assms JObj by (auto simp: patch_icons_def items_of_def)
  next
    case (Some v)
    show ?thesis
    proof (cases v)
      case (JArr xs)
      from assms JObj Some JArr obtain xs' where
        p: "patch_items xs = Inr (xs', n)" and
        d: "data' = JObj (AList.update ''items'' (JArr xs') members)"
        by (auto simp: patch_icons_def split: sum.splits)
      have "items_of data = xs" using JObj Some JArr by (simp add: items_of_def)
      moreover have "items_of data' = xs'" using d by (simp add: items_of_def update_conv')
      moreover have "keys data' = keys data" using d JObj Some
        by (simp add: keys_def keys_update)
      moreover have "\<forall>k. k \<noteq> ''items'' \<longrightarrow> field data' k = field data k"
        using d JObj by (simp add: field_def map_of_update_other)
      ultimately show ?thesis using patch_items_rel[OF p] by simp
    next
      case (JObj kvs)
      then show ?thesis using assms \<open>data = JObj members\<close> Some
        by (auto simp: patch_icons_def items_of_def split: if_splits)
    next
      case (JStr s)
      then show ?thesis using assms JObj Some
        by (auto simp: patch_icons_def items_of_def split: if_splits)
    qed (use assms JObj Some in \<open>auto simp: patch_icons_def\<close>)
  qed
qed (use assms in \<open>auto simp: patch_icons_def\<close>)

lemma patch_item_returns:
  assumes "well_formed_item x"
  shows "\<exists>x' c. patch_item x = Inr (x', c)"
proof -
  from assms obtain members where x: "x = JObj members"
    by (auto simp: well_formed_item_def split: json.splits)
  show ?thesis
  proof (cases "map_of members ''id''")
    case None
    then show ?thesis using x by simp
  next
    case (Some v)
    then have "hashable v" using assms x by (simp add: well_formed_item_def)
    then show ?thesis using x Some
      by (cases v) (auto simp: hashable_def split: option.splits)
  qed
qed

lemma patch_items_returns:
  assumes "list_all well_formed_item xs"
  shows "\<exists>xs' n. patch_items xs = Inr (xs', n)"
  using assms
proof (induction xs)
  case Nil
  show ?case by simp
next
  case (Cons x xs)
  then obtain xs' n where r: "patch_items xs = Inr (xs', n)" by auto
  from Cons.prems obtain x' c where "patch_item x = Inr (x', c)"
    using patch_item_returns[of x] by auto
  then show ?case using r by simp
qed

lemma patch_icons_returns:
  assumes "well_formed data"
  shows "\<exists>data' n. patch_icons data = Inr (data', n)"
proof -
  from assms obtain members where d: "data = JObj members"
    by (auto simp: well_formed_def split: json.splits)
  show ?thesis
  proof (cases "map_of members ''items''")
    case None
    then show ?thesis using d by (simp add: patch_icons_def)
  next
    case (Some v)
    with assms d obtain xs where v: "v = JArr xs"
      by (auto simp: well_formed_def split: json.splits)
    have "\<exists>xs' n. patch_items xs = Inr (xs', n)"
      using assms d Some v by (intro patch_items_returns) (simp add: well_formed_def)
    then show ?thesis using d Some v by (auto simp: patch_icons_def)
  qed
qed

section \<open>Properties of the strength scan\<close>

lemma scan_upto_0: "scan_upto bs 0 = (- 1, 0, 0)"
  by (simp add: scan_upto_def)

lemma scan_upto_Suc: "scan_upto bs (Suc n) = scan_step bs (scan_upto bs n) n"
  by (simp add: scan_upto_def)

lemma scan_upto_inv:
  "case scan_upto bs n of (b, m, t) \<Rightarrow>
     t = sum_list (map (\<lambda>i. length (bs ! i)) [0..<n]) \<and>
     (if \<forall>j<n. strength (bs ! j) \<le> 0 then b = - 1 \<and> m = 0
      else 0 \<le> b \<and> nat b < n \<and> m = strength (bs ! nat b) \<and> 0 < m \<and>
           (\<forall>j<n. strength (bs ! j) \<le> m) \<and> (\<forall>j<nat b. strength (bs ! j) < m))"
proof (induction n)
  case 0
  show ?case by (simp add: scan_upto_0)
next
  case (Suc n)
  obtain b m t where s: "scan_upto bs n = (b, m, t)" by (cases "scan_upto bs n")
  note ih = Suc.IH[unfolded s, simplified]
  show ?case
  proof (cases "\<forall>j<n. strength (bs ! j) \<le> 0")
    case True
    with ih have bm: "b = - 1" "m = 0" by simp_all
    show ?thesis
    proof (cases "strength (bs ! n) > 0")
      case True
      have "\<not> (\<forall>j<Suc n. strength (bs ! j) \<le> 0)" using True by auto
      moreover have "\<forall>j<n. strength (bs ! j) < strength (bs ! n)"
        using \<open>\<forall>j<n. strength (bs ! j) \<le> 0\<close> True by force
      ultimately show ?thesis using True bm ih \<open>\<forall>j<n. strength (bs ! j) \<le> 0\<close>
        by (auto simp: scan_upto_Suc s scan_step_def less_Suc_eq)
    next
      case False
      then have "\<forall>j<Suc n. strength (bs ! j) \<le> 0"
        using True by (auto simp: less_Suc_eq)
      then show ?thesis using False bm ih
        by (simp add: scan_upto_Suc s scan_step_def)
    qed
  next
    case False
    with ih have i: "0 \<le> b" "nat b < n" "m = strength (bs ! nat b)" "0 < m"
      "\<forall>j<n. strength (bs ! j) \<le> m" "\<forall>j<nat b. strength (bs ! j) < m"
      and t: "t = sum_list (map (\<lambda>i. length (bs ! i)) [0..<n])"
      by metis+
    have ne: "\<not> (\<forall>j<Suc n. strength (bs ! j) \<le> 0)" using False by (auto simp: less_Suc_eq)
    show ?thesis
    proof (cases "strength (bs ! n) > m")
      case True
      have "\<forall>j<n. strength (bs ! j) < strength (bs ! n)" using i(5) True by force
      moreover have "0 < strength (bs ! n)" using True i(4) by simp
      ultimately show ?thesis using True ne t i(5)
        by (auto simp: scan_upto_Suc s scan_step_def less_Suc_eq)
    next
      case F2: False
      then show ?thesis using ne t i
        by (auto simp: scan_upto_Suc s scan_step_def less_Suc_eq)
    qed
  qed
qed

lemma scan_eq: "scan bs = scan_upto bs 36"
  by (simp add: scan_def scan_upto_def)

lemma best_bucket_cases:
  "if \<forall>j<36. strength (bs ! j) \<le> 0 then best_bucket bs = - 1
   else 0 \<le> best_bucket bs \<and> nat (best_bucket bs) < 36 \<and>
        0 < strength (bs ! nat (best_bucket bs)) \<and>
        (\<forall>j<36. strength (bs ! j) \<le> strength (bs ! nat (best_bucket bs))) \<and>
        (\<forall>j<nat (best_bucket bs). strength (bs ! j) < strength (bs ! nat (best_bucket bs)))"
proof -
  obtain b m t where s: "scan_upto bs 36 = (b, m, t)" by (cases "scan_upto bs 36")
  have bb: "best_bucket bs = b" by (simp add: best_bucket_def scan_eq s)
  show ?thesis using scan_upto_inv[of bs 36] unfolding s bb by (auto split: if_splits)
qed

lemma total_colored_pixels_eq:
  "total_colored_pixels bs = sum_list (map (\<lambda>i. length (bs ! i)) [0..<36])"
proof -
  obtain b m t where s: "scan_upto bs 36 = (b, m, t)" by (cases "scan_upto bs 36")
  have "total_colored_pixels bs = t" by (simp add: total_colored_pixels_def scan_eq s)
  then show ?thesis using scan_upto_inv[of bs 36] unfolding s by simp
qed

lemma float_sum_Nil: "float_sum [] = 0" by (simp add: float_sum_def)

lemma strength_Nil: "strength [] = 0" by (simp add: strength_def float_sum_Nil)

lemma foldl_fadd_pos:
  "0 \<le> acc \<Longrightarrow> \<forall>x\<in>set xs. 0 < x \<Longrightarrow>
     0 \<le> foldl fadd acc xs \<and> (xs \<noteq> [] \<longrightarrow> 0 < foldl fadd acc xs)"
proof (induction xs arbitrary: acc)
  case Nil
  then show ?case by simp
next
  case (Cons x xs)
  have "0 < acc + x" using Cons.prems by (simp add: add_nonneg_pos)
  then have p: "0 < fadd acc x" unfolding fadd_def by (rule rnd_pos)
  then have "0 \<le> fadd acc x" by simp
  from Cons.IH[OF this] Cons.prems(2)
  have "0 \<le> foldl fadd (fadd acc x) xs" "xs \<noteq> [] \<longrightarrow> 0 < foldl fadd (fadd acc x) xs"
    by simp_all
  then show ?case using p by (cases xs) simp_all
qed

lemma strength_pos:
  assumes "\<forall>e\<in>set b. 0 < saturation e" "b \<noteq> []"
  shows "0 < strength b"
proof -
  have "\<forall>x\<in>set (map saturation b). 0 < x" using assms(1) by simp
  then show ?thesis
    using foldl_fadd_pos[of 0 "map saturation b"] assms(2) by (simp add: strength_def float_sum_def)
qed

lemma saturated_init: "saturated init_classes"
  by (simp add: saturated_def init_classes_def)

lemma set_update_append:
  "set (xs[i := xs ! i @ [e]]) \<subseteq> insert (xs ! i @ [e]) (set xs)"
  by (rule set_update_subset_insert)

lemma classify_pixel_saturated:
  assumes "classify_pixel st p = Inr st'" "saturated st"
  shows "saturated st'"
proof -
  obtain r g b a where u: "unpack p = (r, g, b, a)" by (cases "unpack p")
  show ?thesis
  proof (cases "a < 64")
    case True
    then show ?thesis using assms u by (simp add: classify_pixel_def)
  next
    case False
    then obtain h l s where hls: "rgb_to_hls (channel r) (channel g) (channel b) = Inr (h, l, s)"
      using assms(1) u by (auto simp: classify_pixel_def Let_def split: sum.splits)
    let ?st1 = "st\<lparr>total_non_transparent := total_non_transparent st + 1\<rparr>"
    consider (skip) "st' = ?st1"
      | (grey) "st' = ?st1\<lparr>greys := greys ?st1 @ [(r, g, b, l)]\<rparr>"
      | (bucket) "\<not> s < rnd (20 / 100)"
          "st' = ?st1\<lparr>buckets := (buckets ?st1)[nat (hue_index h) :=
                    buckets ?st1 ! nat (hue_index h) @ [(r, g, b, s, l)]]\<rparr>"
      using assms(1) u False hls by (auto simp: classify_pixel_def Let_def split: if_splits)
    then show ?thesis
    proof cases
      case skip
      then show ?thesis using assms(2) by (simp add: saturated_def)
    next
      case grey
      then show ?thesis using assms(2) by (simp add: saturated_def)
    next
      case bucket
      let ?i = "nat (hue_index h)"
      show ?thesis
      proof (cases "?i < length (buckets st)")
        case True
        then have old: "buckets st ! ?i \<in> set (buckets st)" by simp
        have "\<forall>e\<in>set (buckets st ! ?i @ [(r, g, b, s, l)]). rnd (20 / 100) \<le> saturation e"
          using old assms(2) bucket(1) by (auto simp: saturated_def saturation_def)
        moreover have "set (buckets st') \<subseteq> insert (buckets st ! ?i @ [(r, g, b, s, l)]) (set (buckets st))"
          using bucket(2) set_update_append[of "buckets st" ?i] by simp
        ultimately show ?thesis using assms(2) unfolding saturated_def by blast
      next
        case False
        then have "buckets st' = buckets st" using bucket(2) by (simp add: list_update_beyond)
        then show ?thesis using assms(2) by (simp add: saturated_def)
      qed
    qed
  qed
qed

lemma classify_saturated:
  "classify st ps = Inr st' \<Longrightarrow> saturated st \<Longrightarrow> saturated st'"
proof (induction ps arbitrary: st)
  case Nil then show ?case by simp
next
  case (Cons p ps)
  then show ?case by (auto split: sum.splits dest: classify_pixel_saturated)
qed

lemma threshold_pos: "0 < rnd (20 / 100)"
  by (rule rnd_pos) simp

lemma average_returns: "xs \<noteq> [] \<Longrightarrow> \<exists>v. average xs = Inr v"
  by (simp add: average_def int_truediv_def)


lemma classify_init_inv:
  assumes "classify init_classes ps = Inr st"
  shows "length (buckets st) = 36" "saturated st"
  using classify_length[OF assms] classify_saturated[OF assms saturated_init]
  by (simp_all add: init_classes_def)

lemma saturated_strength_pos:
  assumes "saturated st" "b \<in> set (buckets st)" "b \<noteq> []"
  shows "0 < strength b"
proof -
  have "\<forall>e\<in>set b. 0 < saturation e"
    using assms(1,2) threshold_pos unfolding saturated_def by force
  then show ?thesis using assms(3) by (rule strength_pos)
qed

lemma tie_eval:
  "strength (tie_buckets ! 3) = 1 / 2 \<and> strength (tie_buckets ! 7) = 1 / 2 \<and>
   best_bucket tie_buckets = 3"
  by code_simp

section \<open>Properties of the selector\<close>

lemma c15_val: "rnd (15 / 100) = 5404319552844595 / 36028797018963968"
  by code_simp

lemma grey_value: "py_int (fmul (rnd (65 / 100)) 255) = 165"
  by code_simp

lemma py_float_nat: "n < 2 ^ 53 \<Longrightarrow> py_float (int n) = of_nat n"
  unfolding py_float_def using rnd_of_int[of "int n"] by simp

lemma pow2_m53: "(2::rat) powi (- 53) = 1 / 9007199254740992"
  by (simp add: power_int_minus field_simps)

lemma not_three_dvd_pow2: "\<not> (3::int) dvd 2 ^ e"
proof
  assume "(3::int) dvd 2 ^ e"
  moreover have "coprime (3::int) (2 ^ e)" by simp
  ultimately have "is_unit (3::int)" using coprime_absorb_left by blast 
  then show False by simp
qed


lemma coverage_boundary:
  assumes "0 < k" "k < 2 ^ 32"
  shows "rnd (of_nat (20 * k) * (5404319552844595 / 36028797018963968)) = of_nat (3 * k)"
proof -
  define x :: rat where "x = of_nat (20 * k) * (5404319552844595 / 36028797018963968)"
  define y :: rat where "y = of_nat (3 * k)"
  define e where "e = ilog2 y"
  define p :: rat where "p = 2 powi e"
  have kq: "(0::rat) < of_nat k" "(of_nat k :: rat) < 4294967296"
    using assms by (simp_all add: of_nat_less_iff[of k "4294967296", where ?'a = rat, simplified])
  have xy: "x = y - of_nat k / 9007199254740992"
    unfolding x_def y_def by (simp add: field_simps)
  have ypos: "0 < y" unfolding y_def using assms by simp
  note b = ilog2_bounds[OF ypos, folded e_def, folded p_def]
  have ppos: "0 < p" unfolding p_def by simp
  have p2: "2 powi (e + 1) = 2 * p" unfolding p_def by (rule pow2_succ)
  have "(2::rat) powi 0 \<le> y" unfolding y_def using assms by simp
  then have "(2::rat) powi 0 < 2 powi (e + 1)" using b by linarith
  then have e0: "0 \<le> e" by (simp only: pow2_less_iff)
  have "y < 2 powi 34" unfolding y_def using kq by simp
  then have "(2::rat) powi e < 2 powi 34" using b unfolding p_def by linarith
  then have e34: "e < 34" by (simp only: pow2_less_iff)
  have pint: "p = of_int (2 ^ nat e)" unfolding p_def using e0 by (simp add: power_int_def)
  have yint: "y = of_int (int (3 * k))" unfolding y_def by simp
  have "(2::int) ^ nat e \<le> int (3 * k)"
    using b unfolding pint yint by (simp only: of_int_le_iff)
  moreover have "(2::int) ^ nat e \<noteq> int (3 * k)"
  proof
    assume "(2::int) ^ nat e = int (3 * k)"
    then have "(3::int) dvd 2 ^ nat e" by simp
    then show False using not_three_dvd_pow2 by blast
  qed
  ultimately have "(2::int) ^ nat e + 1 \<le> int (3 * k)" by linarith
  then have "(of_int (2 ^ nat e + 1) :: rat) \<le> of_int (int (3 * k))"
    by (simp only: of_int_le_iff)
  then have p1: "p + 1 \<le> y" unfolding pint yint by simp
  have lo: "2 powi e \<le> x" using p1 kq unfolding xy p_def by linarith
  have hi: "x < 2 powi (e + 1)" using b kq unfolding xy p2 by linarith
  define q :: rat where "q = 2 powi (e - 52)"
  have qp: "q = p / 4503599627370496" unfolding q_def p_def by (simp add: power_int_diff)
  define N :: int where "N = int (3 * k) * 2 ^ nat (52 - e)"
  have "(2::rat) ^ nat (52 - e) * 2 ^ nat e = 2 ^ 52"
  proof -
    have "nat (52 - e) + nat e = 52" using e0 e34 by simp
    then show ?thesis by (simp flip: power_add)
  qed
  then have "(2::rat) ^ nat (52 - e) * p = 4503599627370496" unfolding pint by simp
  then have Np: "of_int N * p = y * 4503599627370496" unfolding N_def yint by simp
  have Nq: "of_int N = y / q" unfolding qp using Np ppos by (simp add: field_simps)
  have "x / q - of_int N = - (of_nat k / 9007199254740992) / q"
    unfolding Nq xy by (simp add: diff_divide_distrib)
  also have "\<dots> = - (of_nat k / (2 * p))" unfolding qp using ppos by (simp add: field_simps)
  finally have d: "x / q - of_int N = - (of_nat k / (2 * p))" .
  have "of_nat k < p" using b unfolding y_def p2 by simp
  then have "of_nat k / (2 * p) < 1 / 2" using ppos by (simp add: field_simps)
  moreover have "0 \<le> of_nat k / (2 * p)" using ppos by simp
  ultimately have "\<bar>x / q - of_int N\<bar> < 1 / 2" unfolding d by linarith
  then have "round_half_even (x / q) = N" by (rule rhe_nearest)
  then have "rnd x = of_int N * q" using rnd_eq[OF lo hi] unfolding q_def by simp
  also have "\<dots> = y" unfolding Nq using ppos qp by simp
  finally show ?thesis unfolding x_def y_def .
qed


lemma coverage_exact:
  assumes "n \<le> 2 ^ 32"
  shows "fmul (py_float (int n)) (rnd (15 / 100)) < of_nat t \<longleftrightarrow> 3 * n < 20 * t"
proof -
  define x :: rat where "x = of_nat n * (5404319552844595 / 36028797018963968)"
  have "n < 2 ^ 53" using assms by (rule le_less_trans) simp
  then have fx: "fmul (py_float (int n)) (rnd (15 / 100)) = rnd x"
    unfolding fmul_def c15_val x_def by (simp add: py_float_nat)
  show ?thesis
  proof (cases "n = 0")
    case True
    then show ?thesis unfolding fx x_def by (simp add: rnd_zero)
  next
    case False
    have nq: "(0::rat) < of_nat n" "(of_nat n :: rat) \<le> 4294967296"
      using False assms by (simp_all add: of_nat_le_iff[of n "4294967296", where ?'a = rat, simplified])
    have xpos: "0 < x" unfolding x_def using nq by simp
    have xlt: "x < 3 * of_nat n / 20" unfolding x_def using nq by (simp add: field_simps)
    have xgt: "3 * of_nat n / 20 - 1 / 40 \<le> x" unfolding x_def using nq by (simp add: field_simps)
    have "\<bar>rnd x - x\<bar> \<le> x * 2 powi (- 53)" using rnd_err[of x] xpos by simp
    also have "\<dots> = x / 9007199254740992" by (simp add: pow2_m53)
    also have "\<dots> < 1 / 40" using xlt nq by (simp add: field_simps)
    finally have err: "\<bar>rnd x - x\<bar> < 1 / 40" .
    show ?thesis unfolding fx
    proof
      assume a: "rnd x < of_nat t"
      show "3 * n < 20 * t"
      proof (rule ccontr)
        assume "\<not> 3 * n < 20 * t"
        then consider "20 * t = 3 * n" | "20 * t + 1 \<le> 3 * n" by linarith
        then show False
        proof cases
          case 1
          then have "\<exists>k. n = 20 * k \<and> t = 3 * k" by presburger
          then obtain k where k: "n = 20 * k" "t = 3 * k" by blast
          have "0 < k" "k < 2 ^ 32" using k False assms by simp_all
          then have "rnd x = of_nat t" unfolding x_def k by (rule coverage_boundary)
          then show False using a by simp
        next
          case 2
          then have "(of_nat (20 * t + 1) :: rat) \<le> of_nat (3 * n)" by (simp only: of_nat_le_iff)
          then have "(of_nat t :: rat) \<le> 3 * of_nat n / 20 - 1 / 20" by (simp add: field_simps)
          then show False using a xgt err by linarith
        qed
      qed
    next
      assume "3 * n < 20 * t"
      then have "3 * n + 1 \<le> 20 * t" by simp
      then have "(of_nat (3 * n + 1) :: rat) \<le> of_nat (20 * t)" by (simp only: of_nat_le_iff)
      then have "3 * of_nat n / 20 + 1 / 20 \<le> (of_nat t :: rat)" by (simp add: field_simps)
      then show "rnd x < of_nat t" using xlt err by linarith
    qed
  qed
qed

lemma py_float_length_nonzero: "xs \<noteq> [] \<Longrightarrow> py_float (int (length xs)) \<noteq> 0"
proof -
  assume "xs \<noteq> []"
  then have "(0::rat) < of_int (int (length xs))" by simp
  then have "0 < rnd (of_int (int (length xs)))" by (rule rnd_pos)
  then show ?thesis by (simp add: py_float_def)
qed

lemma grey_color_value: "gs \<noteq> [] \<Longrightarrow> grey_color gs = Inr (165, 165, 165)"
  using py_float_length_nonzero[of gs]
  unfolding grey_color_def fdiv_def Let_def grey_value by simp

lemma neutral_grey:
  "greys st \<noteq> [] \<Longrightarrow> neutral_result st = Inr (Some (165, 165, 165), total_non_transparent st)"
  by (simp add: neutral_result_def grey_color_value)

lemma hex_grey: "hex_color (165, 165, 165) = ''#a5a5a5'' \<and> hex_color (166, 166, 166) = ''#a6a6a6''"
  by code_simp

section \<open>The all-red icon\<close>

lemma red_hls1: "rgb_to_hls 1 0 0 = Inr (0, 1 / 2, 1)"
  by code_simp

lemma white_hls: "rgb_to_hls 1 1 1 = Inr (0, 1, 0)"
  by code_simp

lemma thresholds:
  "rnd (1 / 10) \<le> 1 / 2 \<and> 1 / 2 \<le> rnd (95 / 100) \<and> rnd (20 / 100) \<le> 1 \<and> rnd (95 / 100) < 1 \<and>
   hue_index 0 = 0"
  by code_simp

lemma red_boost: "boost 0 (1 / 2) 1 = (255, 25, 25)"
  by code_simp

lemma red_hex: "hex_color (255, 25, 25) = ''#ff1919''"
  by code_simp

lemma channel_255: "channel 255 = 1"
  using rnd_of_int[of 1] by (simp add: channel_def)

lemma channel_0: "channel 0 = 0"
  by (simp add: channel_def rnd_zero)

lemma classify_pixel_red_any:
  assumes "64 \<le> a"
  shows "classify_pixel st (RGBA 255 0 0 a) =
     Inr (st\<lparr>total_non_transparent := total_non_transparent st + 1,
             buckets := (buckets st)[0 := buckets st ! 0 @ [(255, 0, 0, 1, 1 / 2)]]\<rparr>)"
proof -
  have t: "\<not> 1 / 2 < rnd (1 / 10)" "\<not> rnd (95 / 100) < 1 / 2" "\<not> 1 < rnd (20 / 100)"
    using thresholds by linarith+
  show ?thesis
    unfolding classify_pixel_def unpack.simps prod.case Let_def channel_255 channel_0 red_hls1
      sum.case
    using assms t thresholds by simp
qed

lemma classify_pixel_white:
  "classify_pixel st (RGBA 255 255 255 255) =
     Inr (st\<lparr>total_non_transparent := total_non_transparent st + 1\<rparr>)"
proof -
  have t: "rnd (95 / 100) < 1" using thresholds by blast
  show ?thesis
    unfolding classify_pixel_def unpack.simps prod.case Let_def channel_255 white_hls sum.case
    using t by simp
qed

lemma classify_red_run:
  assumes "\<forall>p\<in>set ps. \<exists>a. p = RGBA 255 0 0 a \<and> 64 \<le> a" "0 < length (buckets st)"
  shows "classify st ps =
     Inr (st\<lparr>total_non_transparent := total_non_transparent st + length ps,
             buckets := (buckets st)[0 := buckets st ! 0 @
                           replicate (length ps) (255, 0, 0, 1, 1 / 2)]\<rparr>)"
  using assms
proof (induction ps arbitrary: st)
  case Nil
  then show ?case by simp
next
  case (Cons p ps)
  then obtain a where p: "p = RGBA 255 0 0 a" "64 \<le> a" by auto
  let ?st = "st\<lparr>total_non_transparent := total_non_transparent st + 1,
             buckets := (buckets st)[0 := buckets st ! 0 @ [(255, 0, 0, 1, 1 / 2)]]\<rparr>"
  have "classify ?st ps =
     Inr (?st\<lparr>total_non_transparent := total_non_transparent ?st + length ps,
             buckets := (buckets ?st)[0 := buckets ?st ! 0 @
                           replicate (length ps) (255, 0, 0, 1, 1 / 2)]\<rparr>)"
    using Cons.prems by (intro Cons.IH) simp_all
  then show ?case using Cons.prems(2)
    by (simp add: p classify_pixel_red_any replicate_app_Cons_same)
qed

lemma classify_white_run:
  "classify st (replicate n (RGBA 255 255 255 255)) =
     Inr (st\<lparr>total_non_transparent := total_non_transparent st + n\<rparr>)"
  by (induction n arbitrary: st) (simp_all add: classify_pixel_white)

lemma total_colored_pixels_sum:
  assumes "length bs = 36"
  shows "total_colored_pixels bs = sum_list (map length bs)"
proof -
  have "map (\<lambda>i. length (bs ! i)) [0..<36] = map length (map ((!) bs) [0..<length bs])"
    using assms by simp
  also have "\<dots> = map length bs" by (simp only: map_nth)
  finally show ?thesis by (simp add: total_colored_pixels_eq)
qed

lemma best_bucket_only_first:
  assumes "b \<noteq> []" "\<forall>e\<in>set b. 0 < saturation e"
  shows "best_bucket (b # replicate 35 []) = 0"
proof -
  let ?bs = "b # replicate 35 []"
  note c = best_bucket_cases[of ?bs]
  have "0 < strength (?bs ! 0)" using strength_pos[OF assms(2,1)] by simp
  then have n: "\<not> (\<forall>j<36. strength (?bs ! j) \<le> 0)" by force
  then have p: "0 < strength (?bs ! nat (best_bucket ?bs))" and r: "nat (best_bucket ?bs) < 36"
    and z: "0 \<le> best_bucket ?bs"
    using c by (simp_all split: if_splits)
  have "nat (best_bucket ?bs) = 0"
  proof (rule ccontr)
    assume "nat (best_bucket ?bs) \<noteq> 0"
    then obtain j where j: "nat (best_bucket ?bs) = Suc j" "j < 35" using r by (cases "nat (best_bucket ?bs)") auto
    then have "?bs ! nat (best_bucket ?bs) = []" by simp
    then show False using p by (simp add: strength_Nil)
  qed
  then show ?thesis using z by simp
qed

lemma replicate_36: "replicate 36 x = x # replicate 35 x"
proof -
  have "(36::nat) = Suc 35" by simp
  then show ?thesis by (simp only: replicate_Suc)
qed

lemma average_replicate:
  assumes "0 < n" "\<bar>c\<bar> < 2 ^ 53"
  shows "average (replicate n c) = Inr (of_int c)"
proof -
  have "sum_list (replicate n c) = int n * c" by (simp add: sum_list_replicate)
  moreover have "(of_int (int n * c) :: rat) / of_int (int n) = of_int c" using assms(1) by simp
  ultimately show ?thesis using assms rnd_of_int[of c]
    by (simp add: average_def int_truediv_def)
qed

lemma prime_color_red:
  assumes "0 < n"
  shows "prime_color (replicate n (255, 0, 0, 1, 1 / 2)) = Inr (255, 25, 25)"
proof -
  have r: "average (map (\<lambda>(r, g, b, s, l). r) (replicate n (255, 0, 0, 1, 1 / 2 :: rat))) = Inr 255"
    using average_replicate[OF assms, of 255] by simp
  have g: "average (map (\<lambda>(r, g, b, s, l). g) (replicate n (255 :: int, 0, 0 :: int, 1 :: rat, 1 / 2 :: rat))) = Inr 0"
    using average_replicate[OF assms, of 0] by simp
  have b: "average (map (\<lambda>(r, g, b, s, l). b) (replicate n (255 :: int, 0 :: int, 0, 1 :: rat, 1 / 2 :: rat))) = Inr 0"
    using average_replicate[OF assms, of 0] by simp
  have one: "rnd (255 / 255) = 1" using rnd_of_int[of 1] by simp
  have zero: "rnd (0 / 255) = 0" by (simp add: rnd_zero)
  show ?thesis
    unfolding prime_color_def r g b sum.case one zero red_hls1 prod.case red_boost ..
qed

lemma select_red:
  assumes "0 < n" "n \<le> 2 ^ 32"
  shows "select \<lparr>buckets = replicate n (255, 0, 0, 1, 1 / 2) # replicate 35 [], greys = gs,
                 total_non_transparent = n\<rparr> = Inr (Some (255, 25, 25), n)"
    and "best_bucket (replicate n (255, 0, 0, 1, 1 / 2) # replicate 35 []) = 0"
    and "total_colored_pixels (replicate n (255, 0, 0, 1, 1 / 2) # replicate 35 []) = n"
proof -
  let ?b = "replicate n (255 :: int, 0 :: int, 0 :: int, 1 :: rat, 1 / 2 :: rat)"
  let ?bs = "?b # replicate 35 []"
  have ne: "?b \<noteq> []" using assms(1) by simp
  have sat: "\<forall>e\<in>set ?b. 0 < saturation e" by (simp add: saturation_def)
  show bb: "best_bucket ?bs = 0" using ne sat by (rule best_bucket_only_first)
  show tc: "total_colored_pixels ?bs = n" by (simp add: total_colored_pixels_sum)
  have cov: "fmul (py_float (int n)) (rnd (15 / 100)) < of_nat n"
    using coverage_exact[OF assms(2), of n] assms(1) by simp
  show "select \<lparr>buckets = ?bs, greys = gs, total_non_transparent = n\<rparr> = Inr (Some (255, 25, 25), n)"
    using cov by (simp add: select_def accepted_def bb tc dominant_result_def prime_color_red[OF assms(1)])
qed

lemma length_pixel_seq: "length (pixel_seq img) = fst (img_size img) * snd (img_size img)"
proof -
  obtain w h where s: "img_size img = (w, h)" by (cases "img_size img")
  have "length (concat (map (\<lambda>y. map (\<lambda>x. img_load img x y) [0..<w]) [0..<h])) = h * w"
    by (induction h) simp_all
  then show ?thesis by (simp add: pixel_seq_def s mult.commute)
qed

lemma set_pixel_seq:
  "p \<in> set (pixel_seq img) \<Longrightarrow>
     \<exists>x y. x < fst (img_size img) \<and> y < snd (img_size img) \<and> p = img_load img x y"
  by (cases "img_size img") (fastforce simp: pixel_seq_def)

lemma calculate_red:
  assumes "\<forall>x<fst (img_size img). \<forall>y<snd (img_size img). \<exists>a. img_load img x y = RGBA 255 0 0 a \<and> 64 \<le> a"
    and "0 < fst (img_size img) * snd (img_size img)"
    and "fst (img_size img) * snd (img_size img) \<le> 2 ^ 32"
  shows "calculate_average_color img =
           Inr (Some (255, 25, 25), fst (img_size img) * snd (img_size img))"
    and "classify init_classes (pixel_seq img) =
           Inr \<lparr>buckets = replicate (fst (img_size img) * snd (img_size img)) (255, 0, 0, 1, 1 / 2) #
                           replicate 35 [],
                greys = [], total_non_transparent = fst (img_size img) * snd (img_size img)\<rparr>"
proof -
  let ?n = "fst (img_size img) * snd (img_size img)"
  have all: "\<forall>p\<in>set (pixel_seq img). \<exists>a. p = RGBA 255 0 0 a \<and> 64 \<le> a"
    using assms(1) set_pixel_seq[of _ img] by metis
  have "classify init_classes (pixel_seq img) =
     Inr (init_classes\<lparr>total_non_transparent := total_non_transparent init_classes + length (pixel_seq img),
             buckets := (buckets init_classes)[0 := buckets init_classes ! 0 @
                           replicate (length (pixel_seq img)) (255, 0, 0, 1, 1 / 2)]\<rparr>)"
    using all by (intro classify_red_run) (simp_all add: init_classes_def)
  then show c: "classify init_classes (pixel_seq img) =
           Inr \<lparr>buckets = replicate ?n (255, 0, 0, 1, 1 / 2) # replicate 35 [],
                greys = [], total_non_transparent = ?n\<rparr>"
    by (simp add: init_classes_def length_pixel_seq replicate_36)
  show "calculate_average_color img = Inr (Some (255, 25, 25), ?n)"
    unfolding calculate_average_color_def c sum.case
    using assms(2,3) by (rule select_red(1))
qed

lemma classify_append:
  "classify st (xs @ ys) = (case classify st xs of Inl e \<Rightarrow> Inl e | Inr st' \<Rightarrow> classify st' ys)"
  by (induction xs arbitrary: st) (simp_all split: sum.splits)

lemma classify_boundary: "classify init_classes boundary_pixels = Inr boundary_state"
proof -
  have "classify init_classes (replicate 3 (RGBA 255 0 0 255)) =
     Inr (init_classes\<lparr>total_non_transparent := total_non_transparent init_classes +
               length (replicate 3 (RGBA 255 0 0 255)),
             buckets := (buckets init_classes)[0 := buckets init_classes ! 0 @
                           replicate (length (replicate 3 (RGBA 255 0 0 255))) (255, 0, 0, 1, 1 / 2)]\<rparr>)"
    by (intro classify_red_run) (simp_all add: init_classes_def)
  then have "classify init_classes (replicate 3 (RGBA 255 0 0 255)) =
     Inr \<lparr>buckets = replicate 3 (255, 0, 0, 1, 1 / 2) # replicate 35 [], greys = [],
          total_non_transparent = 3\<rparr>"
    by (simp add: init_classes_def replicate_36)
  then show ?thesis
    by (simp add: boundary_pixels_def boundary_state_def classify_append classify_white_run)
qed

lemma accepted_exact:
  assumes "total_non_transparent st \<le> 2 ^ 32"
  shows "accepted st \<longleftrightarrow>
           best_bucket (buckets st) \<noteq> - 1 \<and>
           3 * total_non_transparent st < 20 * total_colored_pixels (buckets st)"
  unfolding accepted_def using coverage_exact[OF assms] by simp

lemma boundary_eval:
  "total_colored_pixels (buckets boundary_state) = 3 \<and> total_non_transparent boundary_state = 20 \<and>
   neutral_result boundary_state = Inr (None, 20)"
  by (simp add: boundary_state_def total_colored_pixels_sum neutral_result_def)

lemma classify_grey: "classify init_classes [RGBA 128 128 128 255] = Inr grey_state"
  by code_simp

lemma not_accepted_empty: "best_bucket (replicate 36 []) = - 1"
  by code_simp

lemma crop_red:
  assumes "0 \<le> sx" "0 \<le> sy" "sx + ICON_SIZE \<le> sprite_width sprite"
    "sy + ICON_SIZE \<le> sprite_height sprite"
    "\<forall>x y. 0 \<le> x \<and> x < ICON_SIZE \<and> 0 \<le> y \<and> y < ICON_SIZE \<longrightarrow>
       getpixel sprite (sx + x) (sy + y) = (255, 0, 0, 255)"
  shows "calculate_average_color (crop sprite sx sy) = Inr (Some (255, 25, 25), 4096)"
    and "classify init_classes (pixel_seq (crop sprite sx sy)) =
           Inr \<lparr>buckets = replicate 4096 (255, 0, 0, 1, 1 / 2) # replicate 35 [],
                greys = [], total_non_transparent = 4096\<rparr>"
proof -
  let ?img = "crop sprite sx sy"
  have sz: "img_size ?img = (64, 64)" by (simp add: crop_def ICON_SIZE_def)
  have px: "\<forall>x<fst (img_size ?img). \<forall>y<snd (img_size ?img).
              \<exists>a. img_load ?img x y = RGBA 255 0 0 a \<and> 64 \<le> a"
  proof (intro allI impI)
    fix x y assume "x < fst (img_size ?img)" "y < snd (img_size ?img)"
    then have xy: "x < 64" "y < 64" by (simp_all add: sz)
    then have "0 \<le> int x \<and> int x < ICON_SIZE \<and> 0 \<le> int y \<and> int y < ICON_SIZE"
      by (simp add: ICON_SIZE_def)
    then have g: "getpixel sprite (sx + int x) (sy + int y) = (255, 0, 0, 255)"
      using assms(5) by blast
    have "0 \<le> sx + int x \<and> sx + int x < sprite_width sprite \<and>
          0 \<le> sy + int y \<and> sy + int y < sprite_height sprite"
      using assms(1-4) xy by (simp add: ICON_SIZE_def)
    then have "img_load ?img x y = RGBA 255 0 0 255" by (simp add: crop_def g)
    then show "\<exists>a. img_load ?img x y = RGBA 255 0 0 a \<and> 64 \<le> a" by simp
  qed
  have n: "fst (img_size ?img) * snd (img_size ?img) = 4096" by (simp add: sz)
  have pos: "0 < fst (img_size ?img) * snd (img_size ?img)" unfolding n by simp
  have le: "fst (img_size ?img) * snd (img_size ?img) \<le> 2 ^ 32" unfolding n by simp
  show "calculate_average_color ?img = Inr (Some (255, 25, 25), 4096)"
    using calculate_red(1)[OF px pos le] unfolding n .
  show "classify init_classes (pixel_seq ?img) =
           Inr \<lparr>buckets = replicate 4096 (255, 0, 0, 1, 1 / 2) # replicate 35 [],
                greys = [], total_non_transparent = 4096\<rparr>"
    using calculate_red(2)[OF px pos le] unfolding n .
qed

lemma process_item_red:
  assumes "0 \<le> iconIndex it"
    "(iconIndex it mod COLS) * ICON_SIZE + ICON_SIZE \<le> sprite_width sprite"
    "(iconIndex it div COLS) * ICON_SIZE + ICON_SIZE \<le> sprite_height sprite"
    "\<forall>x y. 0 \<le> x \<and> x < ICON_SIZE \<and> 0 \<le> y \<and> y < ICON_SIZE \<longrightarrow>
       getpixel sprite ((iconIndex it mod COLS) * ICON_SIZE + x)
                       ((iconIndex it div COLS) * ICON_SIZE + y) = (255, 0, 0, 255)"
  shows "process_item sprite (colors, log_lines) it =
           Inr (AList.update (item_id it) ''#ff1919'' colors, log_lines)"
proof -
  let ?sx = "(iconIndex it mod COLS) * ICON_SIZE"
  let ?sy = "(iconIndex it div COLS) * ICON_SIZE"
  have sx: "0 \<le> ?sx" by (simp add: COLS_def ICON_SIZE_def)
  have sy: "0 \<le> ?sy" using assms(1) by (simp add: COLS_def ICON_SIZE_def pos_imp_zdiv_nonneg_iff)
  have c: "calculate_average_color (crop sprite ?sx ?sy) = Inr (Some (255, 25, 25), 4096)"
    using sx sy assms(2,3,4) by (rule crop_red(1))
  have nb: "\<not> ?sy + ICON_SIZE > sprite_height sprite" using assms(3) by simp
  show ?thesis
    unfolding process_item_def prod.case Let_def using nb
    by (simp add: c red_hex)
qed

lemma red_sheet_log: "str_int 1472 = ''1472'' \<and> str_int 64 = ''64''"
  by code_simp

lemma main_red:
  "main (Some red_sheet) [red_item] =
     Inr (Some ([(''red-plate'', ''#ff1919'')], [''Image Size: 1472x64'']))"
proof -
  have "process_item red_sheet ([], [''Image Size: 1472x64'']) red_item =
          Inr (AList.update (item_id red_item) ''#ff1919'' [], [''Image Size: 1472x64''])"
    by (rule process_item_red)
       (simp_all add: red_item_def red_sheet_def COLS_def ICON_SIZE_def)
  then show ?thesis
    by (simp add: main_def red_sheet_log red_sheet_def red_item_def)
qed

lemma accepted_red:
  assumes "0 < n" "n \<le> 2 ^ 32"
  shows "accepted \<lparr>buckets = replicate n (255, 0, 0, 1, 1 / 2) # replicate 35 [], greys = gs,
                   total_non_transparent = n\<rparr>"
  using assms select_red(2,3)[OF assms] by (simp add: accepted_exact)

section \<open>The extraction returns on 8-bit pixels\<close>

lemma rnd_one: "rnd 1 = 1" using rnd_of_int[of 1] by simp

lemma rnd_nonneg: "0 \<le> x \<Longrightarrow> 0 \<le> rnd x"
  using rnd_mono[of 0 x] by (simp add: rnd_zero)

lemma rnd_le_one: "x \<le> 1 \<Longrightarrow> rnd x \<le> 1"
  using rnd_mono[of x 1] by (simp add: rnd_one)

lemma rnd_ge_one: "1 \<le> x \<Longrightarrow> 1 \<le> rnd x"
  using rnd_mono[of 1 x] by (simp add: rnd_one)

lemma rnd_nonzero: "x \<noteq> 0 \<Longrightarrow> rnd x \<noteq> 0"
proof -
  assume "x \<noteq> 0"
  then consider "0 < x" | "0 < - x" by linarith
  then show ?thesis
  proof cases
    case 1 then show ?thesis using rnd_pos[of x] by simp
  next
    case 2 then show ?thesis using rnd_pos[of "- x"] by (simp add: rnd_minus)
  qed
qed

lemma rgb_to_hls_returns:
  assumes "0 \<le> r" "r \<le> 1" "0 \<le> g" "g \<le> 1" "0 \<le> b" "b \<le> 1"
  shows "\<exists>h l s. rgb_to_hls r g b = Inr (h, l, s) \<and> 0 \<le> s"
proof -
  define maxc where "maxc = max r (max g b)"
  define minc where "minc = min r (min g b)"
  have mm: "0 \<le> minc" "minc \<le> maxc" "maxc \<le> 1"
    using assms unfolding maxc_def minc_def by auto
  show ?thesis
  proof (cases "minc = maxc")
    case True
    then show ?thesis unfolding rgb_to_hls_def Let_def maxc_def minc_def by simp
  next
    case False
    then have lt: "minc < maxc" using mm by simp
    define rangec where "rangec = fsub maxc minc"
    have rp: "0 < rangec" unfolding rangec_def fsub_def using lt by (intro rnd_pos) simp
    have sp: "0 < fadd maxc minc" unfolding fadd_def using lt mm by (intro rnd_pos) simp
    have "1 \<le> fsub 2 maxc" unfolding fsub_def using mm by (intro rnd_ge_one) simp
    then have dp: "0 < fsub (fsub 2 maxc) minc"
      unfolding fsub_def[of _ minc] using lt mm by (intro rnd_pos) simp
    define d where "d = (if rnd (fadd maxc minc / 2) \<le> 1 / 2 then fadd maxc minc
                         else fsub (fsub 2 maxc) minc)"
    have d: "0 < d" unfolding d_def using sp dp by simp
    have fd: "(if rnd (fadd maxc minc / 2) \<le> 1 / 2 then fdiv rangec (fadd maxc minc)
               else fdiv rangec (fsub (fsub 2 maxc) minc)) = Inr (rnd (rangec / d))"
      unfolding d_def fdiv_def using sp dp by simp
    have s0: "0 \<le> rnd (rangec / d)" using rp d by (intro rnd_nonneg) simp
    have rn: "rangec \<noteq> 0" using rp by simp
    show ?thesis
      unfolding rgb_to_hls_def Let_def
      unfolding maxc_def[symmetric] minc_def[symmetric] rangec_def[symmetric]
      using False fd s0 rn by (simp add: fdiv_def)
  qed
qed

lemma channel_range: "byte c \<Longrightarrow> 0 \<le> channel c \<and> channel c \<le> 1"
  unfolding byte_def channel_def by (intro conjI rnd_nonneg rnd_le_one) simp_all

lemma byte_init: "byte_classes init_classes"
  by (simp add: byte_classes_def init_classes_def)

lemma classify_pixel_returns:
  assumes "byte_pixel p" "byte_classes st"
  shows "\<exists>st'. classify_pixel st p = Inr st' \<and> byte_classes st'"
proof -
  obtain r g b a where u: "unpack p = (r, g, b, a)" by (cases "unpack p")
  have bt: "byte r" "byte g" "byte b" using assms(1) u by (simp_all add: byte_pixel_def)
  obtain h l s where hls: "rgb_to_hls (channel r) (channel g) (channel b) = Inr (h, l, s)"
    using rgb_to_hls_returns[of "channel r" "channel g" "channel b"] channel_range bt by blast
  let ?st1 = "st\<lparr>total_non_transparent := total_non_transparent st + 1\<rparr>"
  let ?i = "nat (hue_index h)"
  let ?st2 = "?st1\<lparr>buckets := (buckets ?st1)[?i := buckets ?st1 ! ?i @ [(r, g, b, s, l)]]\<rparr>"
  have b2: "byte_classes ?st2"
  proof (cases "?i < length (buckets st)")
    case True
    then have old: "buckets st ! ?i \<in> set (buckets st)" by simp
    have "\<forall>e\<in>set (buckets st ! ?i @ [(r, g, b, s, l)]). byte_entry e"
      using old assms(2) bt by (auto simp: byte_classes_def byte_entry_def)
    moreover have "set (buckets ?st2) \<subseteq> insert (buckets st ! ?i @ [(r, g, b, s, l)]) (set (buckets st))"
      using set_update_append[of "buckets st" ?i] by simp
    ultimately show ?thesis using assms(2) unfolding byte_classes_def by blast
  next
    case False
    then have "buckets ?st2 = buckets st" by (simp add: list_update_beyond)
    then show ?thesis using assms(2) by (simp add: byte_classes_def)
  qed
  have b1: "byte_classes ?st1" "byte_classes (?st1\<lparr>greys := greys ?st1 @ [(r, g, b, l)]\<rparr>)"
    using assms(2) by (simp_all add: byte_classes_def)
  show ?thesis
    unfolding classify_pixel_def u prod.case Let_def hls sum.case
    using assms(2) b1 b2 by (simp add: Let_def)
qed

lemma classify_returns:
  assumes "\<forall>p\<in>set ps. byte_pixel p" "byte_classes st"
  shows "\<exists>st'. classify st ps = Inr st' \<and> byte_classes st'"
  using assms
proof (induction ps arbitrary: st)
  case Nil then show ?case by simp
next
  case (Cons p ps)
  then obtain st1 where s: "classify_pixel st p = Inr st1" "byte_classes st1"
    using classify_pixel_returns[of p st] by auto
  then show ?case using Cons.IH[of st1] Cons.prems by simp
qed

lemma average_range:
  assumes "xs \<noteq> []" "\<forall>x\<in>set xs. byte x"
  shows "\<exists>v. average xs = Inr v \<and> 0 \<le> v \<and> v \<le> 255"
proof -
  have n: "0 < length xs" using assms(1) by simp
  have "0 \<le> sum_list xs \<and> sum_list xs \<le> 255 * int (length xs)"
    using assms(2) by (induction xs) (auto simp: byte_def)
  then have s: "(0::rat) \<le> of_int (sum_list xs)" "(of_int (sum_list xs) :: rat) \<le> 255 * of_int (int (length xs))"
    by (simp, metis of_int_le_iff of_int_mult of_int_numeral)
  have np: "(0::rat) < of_int (int (length xs))" using n by simp
  have q: "(0::rat) \<le> of_int (sum_list xs) / of_int (int (length xs))"
          "(of_int (sum_list xs) :: rat) / of_int (int (length xs)) \<le> of_int 255"
    using s np by (simp_all add: pos_divide_le_eq)
  have "rnd (of_int 255) = of_int 255" by (rule rnd_of_int) simp
  then have "rnd (of_int (sum_list xs) / of_int (int (length xs))) \<le> 255"
    using rnd_mono[OF q(2)] by simp
  moreover have "0 \<le> rnd (of_int (sum_list xs) / of_int (int (length xs)))"
    using q(1) by (rule rnd_nonneg)
  ultimately show ?thesis using n by (simp add: average_def int_truediv_def)
qed

lemma unit_range: "0 \<le> v \<Longrightarrow> v \<le> 255 \<Longrightarrow> 0 \<le> rnd (v / 255) \<and> rnd (v / 255) \<le> 1"
  by (intro conjI rnd_nonneg rnd_le_one) simp_all

lemma prime_color_returns:
  assumes "b \<noteq> []" "\<forall>e\<in>set b. byte_entry e"
  shows "\<exists>h l s. 0 \<le> s \<and> prime_color b = Inr (boost h l s)"
proof -
  have r: "map (\<lambda>(r, g, b, s, l). r) b \<noteq> []" "\<forall>x\<in>set (map (\<lambda>(r, g, b, s, l). r) b). byte x"
    and g: "map (\<lambda>(r, g, b, s, l). g) b \<noteq> []" "\<forall>x\<in>set (map (\<lambda>(r, g, b, s, l). g) b). byte x"
    and bl: "map (\<lambda>(r, g, b, s, l). b) b \<noteq> []" "\<forall>x\<in>set (map (\<lambda>(r, g, b, s, l). b) b). byte x"
    using assms by (auto simp: byte_entry_def)
  obtain ar where ar: "average (map (\<lambda>(r, g, b, s, l). r) b) = Inr ar" "0 \<le> ar" "ar \<le> 255"
    using average_range[OF r] by blast
  obtain ag where ag: "average (map (\<lambda>(r, g, b, s, l). g) b) = Inr ag" "0 \<le> ag" "ag \<le> 255"
    using average_range[OF g] by blast
  obtain ab where ab: "average (map (\<lambda>(r, g, b, s, l). b) b) = Inr ab" "0 \<le> ab" "ab \<le> 255"
    using average_range[OF bl] by blast
  obtain h l s where hls: "rgb_to_hls (rnd (ar / 255)) (rnd (ag / 255)) (rnd (ab / 255)) = Inr (h, l, s)"
    "0 \<le> s"
    using rgb_to_hls_returns[of "rnd (ar / 255)" "rnd (ag / 255)" "rnd (ab / 255)"]
      unit_range[OF ar(2,3)] unit_range[OF ag(2,3)] unit_range[OF ab(2,3)] by blast
  have "prime_color b = Inr (boost h l s)"
    unfolding prime_color_def ar(1) ag(1) ab(1) sum.case hls(1) prod.case ..
  then show ?thesis using hls(2) by blast
qed

section \<open>Properties of the walk\<close>

lemma select_returns:
  assumes "length (buckets st) = 36" "byte_classes st"
  shows "\<exists>c. select st = Inr (c, total_non_transparent st)"
proof (cases "accepted st")
  case True
  let ?bs = "buckets st"
  have n: "best_bucket ?bs \<noteq> - 1" using True by (simp add: accepted_def)
  note c = best_bucket_cases[of ?bs]
  have ne: "\<not> (\<forall>j<36. strength (?bs ! j) \<le> 0)" using c n by (auto split: if_splits)
  then have i: "nat (best_bucket ?bs) < 36" and p: "0 < strength (?bs ! nat (best_bucket ?bs))"
    using c by (simp_all split: if_splits)
  have nonempty: "?bs ! nat (best_bucket ?bs) \<noteq> []"
    using p by (auto simp: strength_Nil)
  have "?bs ! nat (best_bucket ?bs) \<in> set ?bs" using i assms(1) by simp
  then have "\<forall>e\<in>set (?bs ! nat (best_bucket ?bs)). byte_entry e"
    using assms(2) by (simp add: byte_classes_def)
  then obtain h l s where "prime_color (?bs ! nat (best_bucket ?bs)) = Inr (boost h l s)"
    using prime_color_returns[OF nonempty] by blast
  then show ?thesis using True by (simp add: select_def dominant_result_def)
next
  case False
  then show ?thesis
    by (cases "greys st = []") (simp_all add: select_def neutral_result_def grey_color_value)
qed

lemma calculate_returns:
  assumes "\<forall>p\<in>set (pixel_seq img). byte_pixel p"
  shows "\<exists>c n. calculate_average_color img = Inr (c, n)"
proof -
  obtain st where st: "classify init_classes (pixel_seq img) = Inr st" "byte_classes st"
    using classify_returns[OF assms byte_init] by blast
  have "length (buckets st) = 36" using classify_init_inv(1)[OF st(1)] .
  then obtain c where "select st = Inr (c, total_non_transparent st)"
    using select_returns st(2) by blast
  then show ?thesis by (simp add: calculate_average_color_def st(1))
qed

lemma crop_byte:
  assumes "byte_sheet sprite"
  shows "\<forall>p\<in>set (pixel_seq (crop sprite sx sy)). byte_pixel p"
proof
  fix p assume "p \<in> set (pixel_seq (crop sprite sx sy))"
  then obtain x y where p: "p = img_load (crop sprite sx sy) x y"
    using set_pixel_seq by blast
  show "byte_pixel p"
  proof (cases "0 \<le> sx + int x \<and> sx + int x < sprite_width sprite \<and>
                0 \<le> sy + int y \<and> sy + int y < sprite_height sprite")
    case True
    obtain r g b a where g: "getpixel sprite (sx + int x) (sy + int y) = (r, g, b, a)"
      by (cases "getpixel sprite (sx + int x) (sy + int y)")
    then have "byte r \<and> byte g \<and> byte b" using assms unfolding byte_sheet_def
      by (metis (mono_tags, lifting) case_prod_conv)
    then show ?thesis using True g by (simp add: p crop_def byte_pixel_def)
  next
    case False
    then have "p = RGBA 0 0 0 0" unfolding p crop_def by auto
    then show ?thesis by (simp add: byte_pixel_def byte_def)
  qed
qed

lemma extraction_returns:
  "byte_sheet sprite \<Longrightarrow> \<exists>c n. extraction sprite it = Inr (c, n)"
  unfolding extraction_def by (intro calculate_returns crop_byte)

lemma process_item_cases:
  "process_item sprite (colors, log_lines) it =
     (if cell_out_of_bounds sprite it
      then Inr (colors, log_lines @
             [''Error: Icon '' @ str_int (iconIndex it) @ '' (Item: '' @ item_name it @
              '') is outside sprite sheet (Height: '' @ str_int (sprite_height sprite) @ '')''])
      else case extraction sprite it of
             Inl e \<Rightarrow> Inl e
           | Inr (Some avg, non_trans) \<Rightarrow>
               Inr (AList.update (item_id it) (hex_color avg) colors, log_lines)
           | Inr (None, non_trans) \<Rightarrow>
               Inr (colors, log_lines @
                 [''Warning: No valid pixels found for '' @ item_name it @ '' (ID: '' @
                  item_id it @ '', Index: '' @ str_int (iconIndex it) @
                  '') - Non-trans count: '' @ str_int (int non_trans)]))"
  by (simp add: process_item_def cell_out_of_bounds_def extraction_def Let_def)

lemma process_item_fails:
  assumes "fails sprite it"
  shows "\<exists>line. process_item sprite (colors, log_lines) it = Inr (colors, log_lines @ [line])"
proof (cases "cell_out_of_bounds sprite it")
  case True
  then show ?thesis by (simp add: process_item_cases)
next
  case False
  then obtain n where "extraction sprite it = Inr (None, n)"
    using assms by (auto simp: fails_def split: sum.splits option.splits prod.splits)
  then show ?thesis using False by (simp add: process_item_cases)
qed

lemma process_item_succeeds:
  assumes "succeeds sprite it"
  shows "\<exists>avg. process_item sprite (colors, log_lines) it =
           Inr (AList.update (item_id it) (hex_color avg) colors, log_lines)"
proof -
  from assms obtain avg n where "extraction sprite it = Inr (Some avg, n)"
    by (auto simp: succeeds_def split: sum.splits option.splits prod.splits)
  then have "process_item sprite (colors, log_lines) it =
           Inr (AList.update (item_id it) (hex_color avg) colors, log_lines)"
    using assms by (simp add: process_item_cases succeeds_def)
  then show ?thesis by blast
qed

lemma process_item_trichotomy:
  assumes "process_item sprite st it = Inr st'"
  shows "fails sprite it \<and> \<not> succeeds sprite it \<or> succeeds sprite it \<and> \<not> fails sprite it"
proof -
  obtain colors log_lines where st: "st = (colors, log_lines)" by (cases st)
  show ?thesis
  proof (cases "cell_out_of_bounds sprite it")
    case True
    then show ?thesis by (simp add: fails_def succeeds_def)
  next
    case False
    then show ?thesis using assms unfolding st process_item_cases
      by (auto simp: fails_def succeeds_def split: sum.splits option.splits prod.splits)
  qed
qed

lemma hex_color_nonempty: "hex_color avg \<noteq> []"
  by (cases avg) (simp add: hex_color_def)

lemma values_update: "snd ` set (AList.update k v al) \<subseteq> insert v (snd ` set al)"
  by (induction al) auto

lemma walk_inv:
  assumes "walk sprite (colors, log_lines) items = Inr (colors', log')"
  shows "(distinct (map fst colors) \<longrightarrow> distinct (map fst colors')) \<and>
         fst ` set colors' =
           fst ` set colors \<union> set (map item_id (filter (succeeds sprite) items)) \<and>
         ((\<forall>v\<in>snd ` set colors. v \<noteq> []) \<longrightarrow> (\<forall>v\<in>snd ` set colors'. v \<noteq> [])) \<and>
         length log' = length log_lines + length (filter (fails sprite) items)"
  using assms
proof (induction items arbitrary: colors log_lines)
  case Nil
  then show ?case by simp
next
  case (Cons it items)
  from Cons.prems obtain st1 where
    p: "process_item sprite (colors, log_lines) it = Inr st1" and
    w: "walk sprite st1 items = Inr (colors', log')"
    by (auto split: sum.splits)
  from process_item_trichotomy[OF p] show ?case
  proof
    assume f: "fails sprite it \<and> \<not> succeeds sprite it"
    then obtain line where "st1 = (colors, log_lines @ [line])"
      using process_item_fails[of sprite it colors log_lines] p by auto
    then have "walk sprite (colors, log_lines @ [line]) items = Inr (colors', log')"
      using w by simp
    note ih = Cons.IH[OF this]
    have 1: "distinct (map fst colors) \<longrightarrow> distinct (map fst colors')" using ih by (rule conjunct1)
    have 2: "fst ` set colors' =
           fst ` set colors \<union> set (map item_id (filter (succeeds sprite) (it # items)))"
      using ih f by simp
    have 3: "(\<forall>v\<in>snd ` set colors. v \<noteq> []) \<longrightarrow> (\<forall>v\<in>snd ` set colors'. v \<noteq> [])"
      using ih by (elim conjE)
    have "length log' = length (log_lines @ [line]) + length (filter (fails sprite) items)"
      using ih by (elim conjE)
    then have 4: "length log' = length log_lines + length (filter (fails sprite) (it # items))"
      using f by simp
    show ?thesis using 1 2 3 4 by (intro conjI)
  next
    assume s: "succeeds sprite it \<and> \<not> fails sprite it"
    then obtain avg where st1: "st1 = (AList.update (item_id it) (hex_color avg) colors, log_lines)"
      using process_item_succeeds[of sprite it colors log_lines] p by auto
    define c where "c = AList.update (item_id it) (hex_color avg) colors"
    have "walk sprite (c, log_lines) items = Inr (colors', log')" using w st1 c_def by simp
    note ih = Cons.IH[OF this]
    have d: "distinct (map fst colors) \<longrightarrow> distinct (map fst c)"
      unfolding c_def by (simp add: distinct_update)
    have k: "fst ` set c = insert (item_id it) (fst ` set colors)"
      unfolding c_def by (simp add: dom_update)
    have v: "(\<forall>v\<in>snd ` set colors. v \<noteq> []) \<longrightarrow> (\<forall>v\<in>snd ` set c. v \<noteq> [])"
    proof (intro impI ballI)
      fix x assume a: "\<forall>v\<in>snd ` set colors. v \<noteq> []" and x: "x \<in> snd ` set c"
      have "x \<in> insert (hex_color avg) (snd ` set colors)"
        using x values_update[of "item_id it" "hex_color avg" colors] unfolding c_def
        by (rule rev_subsetD)
      then have "x = hex_color avg \<or> x \<in> snd ` set colors" by simp
      then show "x \<noteq> []" using a hex_color_nonempty[of avg] by metis
    qed
    have 1: "distinct (map fst colors) \<longrightarrow> distinct (map fst colors')" using ih d by metis
    have "fst ` set colors' = fst ` set c \<union> set (map item_id (filter (succeeds sprite) items))"
      using ih by (elim conjE)
    then have 2: "fst ` set colors' =
           fst ` set colors \<union> set (map item_id (filter (succeeds sprite) (it # items)))"
      unfolding k using s by simp
    have "(\<forall>v\<in>snd ` set c. v \<noteq> []) \<longrightarrow> (\<forall>v\<in>snd ` set colors'. v \<noteq> [])"
      using ih by (elim conjE)
    then have 3: "(\<forall>v\<in>snd ` set colors. v \<noteq> []) \<longrightarrow> (\<forall>v\<in>snd ` set colors'. v \<noteq> [])"
      using v by (intro impI) (elim impE, assumption+)
    have "length log' = length log_lines + length (filter (fails sprite) items)"
      using ih by (elim conjE)
    then have 4: "length log' = length log_lines + length (filter (fails sprite) (it # items))"
      using s by simp
    show ?thesis using 1 2 3 4 by (intro conjI)
  qed
qed

lemma walk_returns:
  assumes "byte_sheet sprite"
  shows "\<exists>st'. walk sprite st items = Inr st'"
proof (induction items arbitrary: st)
  case Nil
  show ?case by simp
next
  case (Cons it items)
  obtain colors log_lines where st: "st = (colors, log_lines)" by (cases st)
  obtain c n where e: "extraction sprite it = Inr (c, n)"
    using extraction_returns[OF assms] by blast
  have "\<exists>st1. process_item sprite st it = Inr st1"
    unfolding st process_item_cases e by (cases c) simp_all
  then show ?case using Cons.IH by auto
qed

lemma twin_eval:
  "cell_out_of_bounds red_sheet red_item_twin \<and>
   ''Error: Icon '' @ str_int (iconIndex red_item_twin) @ '' (Item: '' @ item_name red_item_twin @
     '') is outside sprite sheet (Height: '' @ str_int (sprite_height red_sheet) @ '')'' =
   ''Error: Icon 28 (Item: Red Plate II) is outside sprite sheet (Height: 64)''"
  by code_simp

lemma main_twin:
  "main (Some red_sheet) [red_item, red_item_twin] =
     Inr (Some ([(''red-plate'', ''#ff1919'')],
                [''Image Size: 1472x64'',
                 ''Error: Icon 28 (Item: Red Plate II) is outside sprite sheet (Height: 64)'']))"
proof -
  have a: "process_item red_sheet ([], [''Image Size: 1472x64'']) red_item =
          Inr (AList.update (item_id red_item) ''#ff1919'' [], [''Image Size: 1472x64''])"
    by (rule process_item_red)
       (simp_all add: red_item_def red_sheet_def COLS_def ICON_SIZE_def)
  have b: "process_item red_sheet ([(''red-plate'', ''#ff1919'')], [''Image Size: 1472x64''])
             red_item_twin =
          Inr ([(''red-plate'', ''#ff1919'')],
               [''Image Size: 1472x64'',
                ''Error: Icon 28 (Item: Red Plate II) is outside sprite sheet (Height: 64)''])"
    unfolding process_item_cases using twin_eval by simp
  have l: "''Image Size: '' @ str_int (sprite_width red_sheet) @ ''x'' @
             str_int (sprite_height red_sheet) = ''Image Size: 1472x64''"
    by (simp add: red_sheet_def red_sheet_log)
  have i: "AList.update (item_id red_item) ''#ff1919'' [] = [(''red-plate'', ''#ff1919'')]"
    by (simp add: red_item_def)
  show ?thesis
    unfolding main_def option.case l walk.simps a sum.case i b by simp
qed

lemma walk_twin:
  "walk red_sheet ([], []) [red_item_twin, red_item] =
     Inr ([(''red-plate'', ''#ff1919'')],
          [''Error: Icon 28 (Item: Red Plate II) is outside sprite sheet (Height: 64)''])"
proof -
  have a: "process_item red_sheet ([], []) red_item_twin =
          Inr ([], [''Error: Icon 28 (Item: Red Plate II) is outside sprite sheet (Height: 64)''])"
    unfolding process_item_cases using twin_eval by simp
  have b: "process_item red_sheet
             ([], [''Error: Icon 28 (Item: Red Plate II) is outside sprite sheet (Height: 64)''])
             red_item =
          Inr (AList.update (item_id red_item) ''#ff1919'' [],
               [''Error: Icon 28 (Item: Red Plate II) is outside sprite sheet (Height: 64)''])"
    by (rule process_item_red)
       (simp_all add: red_item_def red_sheet_def COLS_def ICON_SIZE_def)
  have i: "AList.update (item_id red_item) ''#ff1919'' [] = [(''red-plate'', ''#ff1919'')]"
    by (simp add: red_item_def)
  show ?thesis unfolding walk.simps a sum.case b i ..
qed

lemma byte_red_sheet: "byte_sheet red_sheet"
  by (simp add: byte_sheet_def red_sheet_def byte_def)

lemma fails_twin: "fails red_sheet red_item_twin"
  using twin_eval by (simp add: fails_def)


section \<open>The claims\<close>

text \<open>
  C5.  Deleting every pixel with alpha below 64 from a pixel sequence changes nothing of what
  the classifier computes: from any state, and so from the initial one, the buckets, the grey
  pool and the count of opaque pixels (or the error) are those of the original sequence.
\<close>

theorem low_alpha_pixels_ignored:
  "classify st (filter (\<lambda>p. \<not> alpha p < 64) ps) = classify st ps"
proof (induction ps arbitrary: st)
  case Nil
  show ?case by simp
next
  case (Cons p ps)
  show ?case
  proof (cases "alpha p < 64")
    case True
    then show ?thesis using Cons.IH by (simp add: classify_pixel_transparent)
  next
    case False
    then show ?thesis using Cons.IH by (simp split: sum.split)
  qed
qed

text \<open>
  C4.  For every hue \<open>h\<close>, the bucket index \<open>int(h * 36) % 36\<close> lies in 0..35, and the
  bucket list of every state the classifier reaches has 36 entries, so the index is in range;
  the hue 0.999999 has index 35 and the hue 1.0 has index 0.
\<close>

theorem hue_index_in_range:
  "0 \<le> hue_index h \<and> hue_index h < 36 \<and>
   (classify init_classes ps = Inr st \<longrightarrow> nat (hue_index h) < length (buckets st)) \<and>
   hue_index (rnd (999999 / 1000000)) = 35 \<and> hue_index 1 = 0"
proof -
  have "nat (hue_index h) < 36" using hue_index_range[of h] by linarith
  moreover have "classify init_classes ps = Inr st \<Longrightarrow> length (buckets st) = 36"
    using classify_length[of init_classes ps st] by (simp add: init_classes_def)
  ultimately show ?thesis using hue_index_range[of h] hue_index_examples by simp
qed

theorem hue_index_in_range_witness:
  "classify init_classes [RGBA 255 0 0 255] = Inr red_state \<and>
   nat (hue_index (1 / 3)) < length (buckets red_state)"
  using classify_red hue_index_in_range[of "1 / 3" "[RGBA 255 0 0 255]" red_state]
  by blast

text \<open>
  C10.  The patch script returns on every well-formed manifest, and whenever it returns:
  each item whose id is no key of \<open>mappings\<close> is unchanged; each item whose id is a key
  keeps every field other than \<open>iconIndex\<close>, which becomes the mapped value;
  \<open>updated_count\<close> is the number of items whose id is a key; and the document keeps its keys
  and every member other than \<open>items\<close>.
\<close>

theorem patch_icons_frame:
  "(well_formed data \<longrightarrow> (\<exists>data' n. patch_icons data = Inr (data', n))) \<and>
   (\<forall>data' n. patch_icons data = Inr (data', n) \<longrightarrow>
      list_all2 item_rel (items_of data) (items_of data') \<and>
      n = length (filter mapped (items_of data)) \<and>
      keys data' = keys data \<and>
      (\<forall>k. k \<noteq> ''items'' \<longrightarrow> field data' k = field data k))"
  using patch_icons_returns[of data] patch_icons_frame_aux[of data] by blast

theorem patch_icons_frame_witness:
  "well_formed (JObj [(''version'', JInt 1),
      (''items'', JArr [JObj [(''id'', JStr ''grating-crystal''), (''name'', JStr ''Grating''),
                              (''iconIndex'', JInt 3)],
                        JObj [(''id'', JStr ''gear''), (''iconIndex'', JInt 4)]]),
      (''recipes'', JArr [])]) \<and>
   patch_icons (JObj [(''version'', JInt 1),
      (''items'', JArr [JObj [(''id'', JStr ''grating-crystal''), (''name'', JStr ''Grating''),
                              (''iconIndex'', JInt 3)],
                        JObj [(''id'', JStr ''gear''), (''iconIndex'', JInt 4)]]),
      (''recipes'', JArr [])])
     = Inr (JObj [(''version'', JInt 1),
      (''items'', JArr [JObj [(''id'', JStr ''grating-crystal''), (''name'', JStr ''Grating''),
                              (''iconIndex'', JInt 11)],
                        JObj [(''id'', JStr ''gear''), (''iconIndex'', JInt 4)]]),
      (''recipes'', JArr [])], 1) \<and>
   1 = length (filter mapped (items_of (JObj [(''version'', JInt 1),
      (''items'', JArr [JObj [(''id'', JStr ''grating-crystal''), (''name'', JStr ''Grating''),
                              (''iconIndex'', JInt 3)],
                        JObj [(''id'', JStr ''gear''), (''iconIndex'', JInt 4)]]),
      (''recipes'', JArr [])])))"
proof -
  let ?doc = "JObj [(''version'', JInt 1),
      (''items'', JArr [JObj [(''id'', JStr ''grating-crystal''), (''name'', JStr ''Grating''),
                              (''iconIndex'', JInt 3)],
                        JObj [(''id'', JStr ''gear''), (''iconIndex'', JInt 4)]]),
      (''recipes'', JArr [])]"
  let ?doc' = "JObj [(''version'', JInt 1),
      (''items'', JArr [JObj [(''id'', JStr ''grating-crystal''), (''name'', JStr ''Grating''),
                              (''iconIndex'', JInt 11)],
                        JObj [(''id'', JStr ''gear''), (''iconIndex'', JInt 4)]]),
      (''recipes'', JArr [])]"
  have w: "well_formed ?doc"
    by (simp add: well_formed_def well_formed_item_def hashable_def)
  have e: "patch_icons ?doc = Inr (?doc', 1)"
    by (simp add: patch_icons_def mappings_def)
  from patch_icons_frame[of ?doc] e
  have "1 = length (filter mapped (items_of ?doc))" by blast
  with w e show ?thesis by blast
qed

text \<open>
  C9.  For every pixel sequence the classifier accepts: every bucketed pixel has a saturation
  of at least 0.20, so every non-empty bucket has a positive strength; after the scan,
  \<open>best_bucket\<close> is -1 exactly when all buckets are empty; and when it is not -1, the
  bucket it names is non-empty, so that the three averages over it divide by a non-zero
  length and return.
\<close>

theorem best_bucket_nonempty:
  assumes "classify init_classes ps = Inr st"
  shows "saturated st \<and>
         (\<forall>b\<in>set (buckets st). b \<noteq> [] \<longrightarrow> 0 < strength b) \<and>
         (best_bucket (buckets st) = - 1 \<longleftrightarrow> (\<forall>b\<in>set (buckets st). b = [])) \<and>
         (best_bucket (buckets st) \<noteq> - 1 \<longrightarrow>
            buckets st ! nat (best_bucket (buckets st)) \<noteq> [] \<and>
            (\<exists>avg_r avg_g avg_b.
               average (map (\<lambda>(r, g, b, s, l). r) (buckets st ! nat (best_bucket (buckets st)))) = Inr avg_r \<and>
               average (map (\<lambda>(r, g, b, s, l). g) (buckets st ! nat (best_bucket (buckets st)))) = Inr avg_g \<and>
               average (map (\<lambda>(r, g, b, s, l). b) (buckets st ! nat (best_bucket (buckets st)))) = Inr avg_b))"
proof -
  let ?bs = "buckets st"
  note inv = classify_init_inv[OF assms]
  note bc = best_bucket_cases[of ?bs]
  have pos: "\<forall>b\<in>set ?bs. b \<noteq> [] \<longrightarrow> 0 < strength b"
    using saturated_strength_pos[OF inv(2)] by blast
  have a: "best_bucket ?bs = - 1 \<longleftrightarrow> (\<forall>b\<in>set ?bs. b = [])"
  proof
    assume m: "best_bucket ?bs = - 1"
    have all: "\<forall>j<36. strength (?bs ! j) \<le> 0"
    proof (rule ccontr)
      assume "\<not> (\<forall>j<36. strength (?bs ! j) \<le> 0)"
      then have "0 \<le> best_bucket ?bs" using bc by (simp split: if_splits)
      then show False using m by simp
    qed
    show "\<forall>b\<in>set ?bs. b = []"
    proof
      fix b assume b: "b \<in> set ?bs"
      then obtain j where j: "j < 36" "?bs ! j = b" using inv(1) by (auto simp: in_set_conv_nth)
      show "b = []"
      proof (rule ccontr)
        assume "b \<noteq> []"
        then have "0 < strength b" using pos b by blast
        then show False using all j by force
      qed
    qed
  next
    assume e: "\<forall>b\<in>set ?bs. b = []"
    have "\<forall>j<36. strength (?bs ! j) \<le> 0"
    proof (intro allI impI)
      fix j :: nat assume "j < 36"
      then have "?bs ! j \<in> set ?bs" using inv(1) by simp
      then have "?bs ! j = []" using e by blast
      then show "strength (?bs ! j) \<le> 0" by (simp add: strength_Nil)
    qed
    then show "best_bucket ?bs = - 1" using bc by (simp split: if_splits)
  qed
  have b: "best_bucket ?bs \<noteq> - 1 \<Longrightarrow> ?bs ! nat (best_bucket ?bs) \<noteq> []"
  proof
    assume n: "best_bucket ?bs \<noteq> - 1" and e: "?bs ! nat (best_bucket ?bs) = []"
    have "\<not> (\<forall>j<36. strength (?bs ! j) \<le> 0)" using bc n by (auto split: if_splits)
    then have "0 < strength (?bs ! nat (best_bucket ?bs))" using bc by (simp split: if_splits)
    then show False using e by (simp add: strength_Nil)
  qed
  have c: "best_bucket ?bs \<noteq> - 1 \<Longrightarrow>
            (\<exists>avg_r avg_g avg_b.
               average (map (\<lambda>(r, g, b, s, l). r) (?bs ! nat (best_bucket ?bs))) = Inr avg_r \<and>
               average (map (\<lambda>(r, g, b, s, l). g) (?bs ! nat (best_bucket ?bs))) = Inr avg_g \<and>
               average (map (\<lambda>(r, g, b, s, l). b) (?bs ! nat (best_bucket ?bs))) = Inr avg_b)"
    using b by (simp add: average_def int_truediv_def)
  show ?thesis using inv(2) pos a b c by blast
qed

theorem best_bucket_nonempty_witness:
  "classify init_classes [RGBA 255 0 0 255] = Inr red_state \<and>
   best_bucket (buckets red_state) \<noteq> - 1 \<and>
   buckets red_state ! nat (best_bucket (buckets red_state)) \<noteq> []"
proof -
  note t = best_bucket_nonempty[OF classify_red]
  have "[(255, 0, 0, 1, 1 / 2)] \<in> set (buckets red_state)" by (simp add: red_state_def)
  then have "\<not> (\<forall>b\<in>set (buckets red_state). b = [])" by blast
  then have "best_bucket (buckets red_state) \<noteq> - 1" using t by blast
  then show ?thesis using t classify_red by blast
qed

text \<open>
  C7.  As stated the claim fails where no bucket has a positive strength: all 36 buckets of
  the empty state attain the maximal strength 0, and \<open>best_bucket\<close> stays -1.
\<close>

theorem first_maximum_counterexample:
  "map strength (replicate 36 []) = replicate 36 0 \<and> best_bucket (replicate 36 []) = - 1"
  by code_simp

text \<open>
  C7, amended.  For every bucket state in which some bucket has a positive strength, the scan
  picks the lowest index among the buckets that attain the maximal strength: every bucket is
  at most as strong as the picked one, and every bucket before it is strictly weaker.  When no
  bucket has a positive strength, none is picked.
\<close>

theorem first_maximum_wins:
  "if \<forall>j<36. strength (bs ! j) \<le> 0 then best_bucket bs = - 1
   else 0 \<le> best_bucket bs \<and> nat (best_bucket bs) < 36 \<and>
        (\<forall>j<36. strength (bs ! j) \<le> strength (bs ! nat (best_bucket bs))) \<and>
        (\<forall>j<nat (best_bucket bs). strength (bs ! j) < strength (bs ! nat (best_bucket bs)))"
  using best_bucket_cases[of bs] by (auto split: if_splits)

theorem first_maximum_wins_witness:
  "0 < strength (tie_buckets ! 3) \<and>
   strength (tie_buckets ! 3) = strength (tie_buckets ! 7) \<and>
   best_bucket tie_buckets = 3 \<and>
   strength (tie_buckets ! 7) \<le> strength (tie_buckets ! nat (best_bucket tie_buckets))"
proof -
  note ev = tie_eval
  have pos: "0 < strength (tie_buckets ! 3)" using ev by simp
  have "\<not> (\<forall>j<36. strength (tie_buckets ! j) \<le> 0)"
  proof
    assume "\<forall>j<36. strength (tie_buckets ! j) \<le> 0"
    then have "strength (tie_buckets ! 3) \<le> 0" by simp
    with pos show False by simp
  qed
  then have "\<forall>j<36. strength (tie_buckets ! j) \<le> strength (tie_buckets ! nat (best_bucket tie_buckets))"
    using first_maximum_wins[of tie_buckets] by (simp split: if_splits)
  then have "strength (tie_buckets ! 7) \<le> strength (tie_buckets ! nat (best_bucket tie_buckets))"
    by simp
  then show ?thesis using ev pos by simp
qed

text \<open>
  C1.  For every state of at most \<open>2 ^ 32\<close> opaque pixels, the condition the selector
  tests is true exactly when a best bucket exists and the number of coloured pixels is
  strictly greater than 0.15 times the number of opaque pixels, that is, when
  \<open>3 * total_non_transparent < 20 * total_colored_pixels\<close>; the selector returns the
  dominant-hue result in that case and the grey or empty result otherwise.  In particular,
  when the number of coloured pixels equals the threshold exactly, the dominant hue is not
  accepted.
\<close>

theorem dominant_iff_coverage:
  assumes "total_non_transparent st \<le> 2 ^ 32"
  shows "(accepted st \<longleftrightarrow>
            best_bucket (buckets st) \<noteq> - 1 \<and>
            3 * total_non_transparent st < 20 * total_colored_pixels (buckets st)) \<and>
         select st =
           (if best_bucket (buckets st) \<noteq> - 1 \<and>
               3 * total_non_transparent st < 20 * total_colored_pixels (buckets st)
            then dominant_result st else neutral_result st) \<and>
         (20 * total_colored_pixels (buckets st) = 3 * total_non_transparent st \<longrightarrow>
            \<not> accepted st \<and> select st = neutral_result st)"
  using accepted_exact[OF assms] by (simp add: select_def)

theorem dominant_iff_coverage_witness:
  "total_non_transparent boundary_state \<le> 2 ^ 32 \<and>
   classify init_classes boundary_pixels = Inr boundary_state \<and>
   20 * total_colored_pixels (buckets boundary_state) = 3 * total_non_transparent boundary_state \<and>
   select boundary_state = Inr (None, 20)"
proof -
  have b: "total_non_transparent boundary_state \<le> 2 ^ 32" using boundary_eval by simp
  have e: "20 * total_colored_pixels (buckets boundary_state) = 3 * total_non_transparent boundary_state"
    using boundary_eval by simp
  from dominant_iff_coverage[OF b] e have "select boundary_state = neutral_result boundary_state"
    by blast
  then show ?thesis using b e classify_boundary boundary_eval by simp
qed

text \<open>
  C3.  As stated the claim fails: \<open>int(0.65 * 255)\<close> truncates 165.75 to 165, so the grey
  fallback returns (165, 165, 165), formatted as \<open>#a5a5a5\<close>, and not 166.  The icon of
  one opaque pixel (128, 128, 128) shows it.
\<close>

theorem grey_fallback_counterexample:
  "classify init_classes [RGBA 128 128 128 255] = Inr grey_state \<and>
   \<not> accepted grey_state \<and> greys grey_state \<noteq> [] \<and>
   select grey_state = Inr (Some (165, 165, 165), 1) \<and>
   hex_color (165, 165, 165) = ''#a5a5a5''"
proof -
  have n: "\<not> accepted grey_state" by (simp add: accepted_def grey_state_def not_accepted_empty)
  have g: "greys grey_state \<noteq> []" by (simp add: grey_state_def)
  have "select grey_state = Inr (Some (165, 165, 165), total_non_transparent grey_state)"
    using n neutral_grey[OF g] by (simp add: select_def)
  then show ?thesis using n g classify_grey hex_grey by (simp add: grey_state_def)
qed

text \<open>
  C3, amended.  For every input on which the selector takes the grey fallback (the dominant
  hue is not accepted and the grey pool is non-empty), the result is the flat grey
  R = G = B = \<open>int(0.65 * 255)\<close> = 165, formatted as \<open>#a5a5a5\<close>: the same value for
  every such input, whatever the members of the grey pool.
\<close>

theorem grey_fallback_value:
  assumes "\<not> accepted st" "greys st \<noteq> []"
  shows "select st = Inr (Some (165, 165, 165), total_non_transparent st) \<and>
         hex_color (165, 165, 165) = ''#a5a5a5''"
  using assms neutral_grey[OF assms(2)] hex_grey by (simp add: select_def)

theorem grey_fallback_value_witness:
  "\<not> accepted (boundary_state\<lparr>greys := [(90, 90, 90, 1 / 3)]\<rparr>) \<and>
   greys (boundary_state\<lparr>greys := [(90, 90, 90, 1 / 3)]\<rparr>) \<noteq> [] \<and>
   select (boundary_state\<lparr>greys := [(90, 90, 90, 1 / 3)]\<rparr>) = Inr (Some (165, 165, 165), 20)"
proof -
  let ?st = "boundary_state\<lparr>greys := [(90, 90, 90, 1 / 3)]\<rparr>"
  have b: "total_non_transparent ?st \<le> 2 ^ 32" by (simp add: boundary_state_def)
  have n: "\<not> accepted ?st"
    unfolding accepted_exact[OF b] using boundary_eval by (simp add: boundary_state_def)
  have g: "greys ?st \<noteq> []" by simp
  show ?thesis using grey_fallback_value[OF n g] n g by (simp add: boundary_state_def)
qed

text \<open>
  C8.  As stated the claim fails: for the sheet whose every pixel is opaque (255, 0, 0), the
  walk records \<open>#ff1919\<close>, not \<open>#e62929\<close>.  \<open>hls_to_rgb\<close> at h = 0, l = 0.55,
  s = 1.0 is (1.0, 0.1000000000000001, 0.1000000000000001), and \<open>int\<close> of these times 255
  is (255, 25, 25).
\<close>

theorem red_icon_counterexample:
  "main (Some red_sheet) [red_item] =
     Inr (Some ([(''red-plate'', ''#ff1919'')], [''Image Size: 1472x64''])) \<and>
   ''#ff1919'' \<noteq> ''#e62929''"
  using main_red by simp

text \<open>
  C8, amended.  For an item whose cell lies inside the sheet and all of whose pixels are
  opaque (255, 0, 0): hue bucket 0 is the best bucket, the coverage check passes, the selector
  returns (255, 25, 25), and the walk records the hex \<open>#ff1919\<close> under the item's id.
\<close>

theorem red_icon_hex:
  assumes "0 \<le> iconIndex it"
    "(iconIndex it mod COLS) * ICON_SIZE + ICON_SIZE \<le> sprite_width sprite"
    "(iconIndex it div COLS) * ICON_SIZE + ICON_SIZE \<le> sprite_height sprite"
    "\<forall>x y. 0 \<le> x \<and> x < ICON_SIZE \<and> 0 \<le> y \<and> y < ICON_SIZE \<longrightarrow>
       getpixel sprite ((iconIndex it mod COLS) * ICON_SIZE + x)
                       ((iconIndex it div COLS) * ICON_SIZE + y) = (255, 0, 0, 255)"
  shows "process_item sprite (colors, log_lines) it =
           Inr (AList.update (item_id it) ''#ff1919'' colors, log_lines) \<and>
         (\<exists>st. classify init_classes
                  (pixel_seq (crop sprite ((iconIndex it mod COLS) * ICON_SIZE)
                                          ((iconIndex it div COLS) * ICON_SIZE))) = Inr st \<and>
               best_bucket (buckets st) = 0 \<and> accepted st \<and>
               select st = Inr (Some (255, 25, 25), 4096))"
proof -
  let ?sx = "(iconIndex it mod COLS) * ICON_SIZE"
  let ?sy = "(iconIndex it div COLS) * ICON_SIZE"
  let ?st = "\<lparr>buckets = replicate 4096 (255, 0, 0, 1, 1 / 2) # replicate 35 [],
                greys = [], total_non_transparent = 4096\<rparr>"
  have sx: "0 \<le> ?sx" by (simp add: COLS_def ICON_SIZE_def)
  have sy: "0 \<le> ?sy" using assms(1) by (simp add: COLS_def ICON_SIZE_def pos_imp_zdiv_nonneg_iff)
  have c: "classify init_classes (pixel_seq (crop sprite ?sx ?sy)) = Inr ?st"
    using sx sy assms(2,3,4) by (rule crop_red(2))
  have n: "(0::nat) < 4096" "(4096::nat) \<le> 2 ^ 32" by simp_all
  have "best_bucket (buckets ?st) = 0" using select_red(2)[OF n] by simp
  moreover have "accepted ?st" using n by (rule accepted_red)
  moreover have "select ?st = Inr (Some (255, 25, 25), 4096)" using n by (rule select_red(1))
  ultimately have "\<exists>st. classify init_classes (pixel_seq (crop sprite ?sx ?sy)) = Inr st \<and>
               best_bucket (buckets st) = 0 \<and> accepted st \<and>
               select st = Inr (Some (255, 25, 25), 4096)"
    using c by blast
  then show ?thesis using process_item_red[OF assms] by blast
qed

theorem red_icon_hex_witness:
  "process_item red_sheet ([], []) red_item = Inr ([(''red-plate'', ''#ff1919'')], [])"
proof -
  have "process_item red_sheet ([], []) red_item =
          Inr (AList.update (item_id red_item) ''#ff1919'' [], [])"
    using red_icon_hex[of red_item red_sheet "[]" "[]"]
    by (simp add: red_item_def red_sheet_def COLS_def ICON_SIZE_def)
  then show ?thesis by (simp add: red_item_def)
qed

text \<open>
  C6.  As stated the claim fails for a manifest in which two items share an id: the first
  item of id \<open>red-plate\<close> yields a colour, the second one, of the same id, has its cell below
  the sheet and is skipped with a diagnostic, and the id is present in the output mapping.
\<close>

theorem failing_item_counterexample:
  "main (Some red_sheet) [red_item, red_item_twin] =
     Inr (Some ([(''red-plate'', ''#ff1919'')],
                [''Image Size: 1472x64'',
                 ''Error: Icon 28 (Item: Red Plate II) is outside sprite sheet (Height: 64)''])) \<and>
   cell_out_of_bounds red_sheet red_item_twin \<and>
   item_id red_item_twin = ''red-plate''"
  using main_twin twin_eval by (simp add: red_item_twin_def)

text \<open>
  C6, amended.  A per-item failure does not interrupt the walk: if the item's cell bottom
  edge exceeds the sheet's height, or the extraction yields no result, the loop body returns
  with the mapping as it was and one more diagnostic line, and the walk goes on with the next
  item.  On a sheet of 8-bit pixels the walk returns; and whenever it returns, the mapping has
  at most one entry per id, its keys are exactly the ids of the items that yielded a colour
  (so the id of a failing item is absent unless another item of the same id yielded one), no
  value is empty, and the log has one line more for each failing item.
\<close>

theorem failing_item_skipped:
  "(fails sprite it \<longrightarrow>
      (\<exists>line. process_item sprite (colors, log_lines) it = Inr (colors, log_lines @ [line]) \<and>
              walk sprite (colors, log_lines) (it # rest) =
                walk sprite (colors, log_lines @ [line]) rest)) \<and>
   (byte_sheet sprite \<longrightarrow> (\<exists>colors' log'. walk sprite ([], log0) items = Inr (colors', log'))) \<and>
   (\<forall>colors' log'. walk sprite ([], log0) items = Inr (colors', log') \<longrightarrow>
      distinct (map fst colors') \<and>
      (\<forall>k. k \<in> fst ` set colors' \<longleftrightarrow> (\<exists>i\<in>set items. item_id i = k \<and> succeeds sprite i)) \<and>
      (\<forall>v\<in>snd ` set colors'. v \<noteq> []) \<and>
      length log' = length log0 + length (filter (fails sprite) items))"
proof (intro conjI impI allI)
  assume f: "fails sprite it"
  then obtain line where l: "process_item sprite (colors, log_lines) it = Inr (colors, log_lines @ [line])"
    using process_item_fails by blast
  then have "walk sprite (colors, log_lines) (it # rest) =
                walk sprite (colors, log_lines @ [line]) rest" by simp
  with l show "\<exists>line. process_item sprite (colors, log_lines) it = Inr (colors, log_lines @ [line]) \<and>
              walk sprite (colors, log_lines) (it # rest) =
                walk sprite (colors, log_lines @ [line]) rest" by blast
next
  assume "byte_sheet sprite"
  then obtain st' where "walk sprite ([], log0) items = Inr st'" using walk_returns by blast
  then show "\<exists>colors' log'. walk sprite ([], log0) items = Inr (colors', log')"
    by (cases st') simp
next
  fix colors' log' assume w: "walk sprite ([], log0) items = Inr (colors', log')"
  note inv = walk_inv[OF w]
  show "distinct (map fst colors')" using inv by simp
  show "length log' = length log0 + length (filter (fails sprite) items)" using inv by (elim conjE)
  show "\<forall>v\<in>snd ` set colors'. v \<noteq> []" using inv by simp
next
  fix colors' log' k assume w: "walk sprite ([], log0) items = Inr (colors', log')"
  have "fst ` set colors' = set (map item_id (filter (succeeds sprite) items))"
    using walk_inv[OF w] by simp
  then show "k \<in> fst ` set colors' \<longleftrightarrow> (\<exists>i\<in>set items. item_id i = k \<and> succeeds sprite i)"
    by auto
qed

theorem failing_item_skipped_witness:
  "fails red_sheet red_item_twin \<and> byte_sheet red_sheet \<and>
   walk red_sheet ([], []) [red_item_twin, red_item] =
     Inr ([(''red-plate'', ''#ff1919'')],
          [''Error: Icon 28 (Item: Red Plate II) is outside sprite sheet (Height: 64)'']) \<and>
   length (filter (fails red_sheet) [red_item_twin, red_item]) = 1"
proof -
  have "length [''Error: Icon 28 (Item: Red Plate II) is outside sprite sheet (Height: 64)''] =
          length ([] :: string list) + length (filter (fails red_sheet) [red_item_twin, red_item])"
    using failing_item_skipped[of red_sheet red_item_twin "[]" "[]" "[red_item]" "[]"
            "[red_item_twin, red_item]"] walk_twin fails_twin
    by blast
  then have "length (filter (fails red_sheet) [red_item_twin, red_item]) = 1" by simp
  then show ?thesis using fails_twin byte_red_sheet walk_twin by blast
qed

end
